theory Spec2Isabelle
  imports Complex_Main "HOL-Library.Word"
begin

section \<open>Scalars, constants and the quantizer state\<close>

text \<open>
  The embedding follows \<^verbatim>\<open>src/productquantizer.cc\<close>. The members of the class carry
  a trailing underscore in the source (\<^verbatim>\<open>dim_\<close>, \<^verbatim>\<open>nsubq_\<close>, ...); that is not
  a legal name here, so the underscore is dropped.

  \<^item> \<^verbatim>\<open>int32_t\<close> values are read as \<^typ>\<open>int\<close>. Signed overflow is undefined in C++;
    the indices that the program computes stay below the size of the table, so nothing
    overflows as long as that size is representable. Where four bytes are read back
    into a member, and where \<open>load\<close> computes a size from such a member, the two's
    complement value is written out (\<open>wrap32\<close>).
  \<^item> \<^verbatim>\<open>uint8_t\<close> is \<^typ>\<open>8 word\<close>.
  \<^item> \<^verbatim>\<open>real\<close>, the scalar type of the tables, is a type parameter for the parts of
    the program that only move scalars around, and \<^typ>\<open>real\<close> (exact arithmetic,
    a total order) for the parts that compute with them.
  \<^item> A pointer into a flat array is the array (a list) together with an offset. A read
    or write outside the array is undefined in C++; the theorems are about runs whose
    buffers are as long as the program assumes.
  \<^item> Sizes and loop counters that the program only counts upwards from zero are
    \<^typ>\<open>nat\<close>; a caller that holds them as \<^verbatim>\<open>int32_t\<close> converts with \<^const>\<open>nat\<close>, which
    agrees with a loop \<^verbatim>\<open>for (i = 0; i < n; i++)\<close> also when \<open>n\<close> is negative.
\<close>

type_synonym uint8 = "8 word"

text \<open>
  Modelled from the spec: the class declaration (\<^verbatim>\<open>productquantizer.h\<close>) is not among
  the sources. The spec fixes \<open>centroids_per_subspace\<close> to 256, ``sized so a code fits
  in one byte''.
\<close>

definition ksub :: nat where
  "ksub = 256"

text \<open>
  The other constants of the class declaration (iteration count, perturbation epsilon,
  sampling cap) and the generator are members of the object; their values are not
  given by the sources, so they are fields that the constructor receives.
\<close>

record ('r, 'g) quantizer =
  dim :: int
  nsubq :: int
  dsub :: int
  lastdsub :: int
  centroids :: "'r list"
  rng :: 'g
  niter :: int
  eps :: 'r
  max_points :: int

text \<open>C++ integer division truncates towards zero; \<^verbatim>\<open>%\<close> is its remainder.\<close>

definition cdiv :: "int \<Rightarrow> int \<Rightarrow> int" where
  "cdiv a b = sgn a * sgn b * (\<bar>a\<bar> div \<bar>b\<bar>)"

definition cmod :: "int \<Rightarrow> int \<Rightarrow> int" where
  "cmod a b = a - b * cdiv a b"

definition INT32_MAX :: int where
  "INT32_MAX = 2 ^ 31 - 1"

text \<open>
  The errors that the program raises: \<^verbatim>\<open>std::invalid_argument\<close>, and the
  \<^verbatim>\<open>std::length_error\<close> of a vector whose size is beyond \<^verbatim>\<open>max_size()\<close>, which is what a
  negative \<^verbatim>\<open>int\<close> becomes as a \<^verbatim>\<open>size_t\<close>. A size is the product of two \<^verbatim>\<open>int32_t\<close>
  values; it is taken as the 32 bits that the product has on a two's complement machine
  (\<open>wrap32\<close>), so that a product beyond \<open>INT32_MAX\<close> is not taken for a size it is not.
\<close>

datatype error = invalid_argument | length_error

definition INT32_MIN :: int where
  "INT32_MIN = - (2 ^ 31)"

definition wrap32 :: "int \<Rightarrow> int" where
  "wrap32 v = (v + 2 ^ 31) mod 2 ^ 32 - 2 ^ 31"

subsection \<open>Constructor\<close>

text \<open>
  \<^verbatim>\<open>ProductQuantizer(dim, dsub)\<close>: member initialisers, then the body that fixes the
  width of the last subquantizer. The initialiser \<^verbatim>\<open>centroids_(dim * ksub_)\<close> allocates
  the table, value-initialised (all zero), and raises when the size is negative; then
  there is no object. \<open>ProductQuantizer_object\<close> is the rest of the constructor, for a
  table of \<open>n\<close> scalars. The first four arguments stand for the default member
  initialisers of the class declaration.
\<close>

definition ProductQuantizer_object ::
    "int \<Rightarrow> 'r \<Rightarrow> int \<Rightarrow> 'g \<Rightarrow> int \<Rightarrow> int \<Rightarrow> nat \<Rightarrow> ('r::zero, 'g) quantizer" where
  "ProductQuantizer_object niter0 eps0 max_points0 rng0 dm ds n =
     (let q = \<lparr>dim = dm, nsubq = cdiv dm ds, dsub = ds, lastdsub = 0,
                centroids = replicate n 0, rng = rng0,
                niter = niter0, eps = eps0, max_points = max_points0\<rparr>;
          q = q\<lparr>lastdsub := cmod (dim q) ds\<rparr>
      in if lastdsub q = 0 then q\<lparr>lastdsub := dsub q\<rparr>
         else q\<lparr>nsubq := nsubq q + 1\<rparr>)"

definition ProductQuantizer ::
    "int \<Rightarrow> 'r \<Rightarrow> int \<Rightarrow> 'g \<Rightarrow> int \<Rightarrow> int \<Rightarrow> error + ('r::zero, 'g) quantizer" where
  "ProductQuantizer niter0 eps0 max_points0 rng0 dm ds =
     (let n = wrap32 (dm * int ksub)
      in if n < 0 then Inl length_error
         else Inr (ProductQuantizer_object niter0 eps0 max_points0 rng0 dm ds (nat n)))"

subsection \<open>Partition and addressing\<close>

text \<open>
  \<^verbatim>\<open>get_centroids(m, i)\<close> returns \<^verbatim>\<open>&centroids_[...]\<close>; the model returns the index.
  The source has a \<^verbatim>\<open>const\<close> and a mutable overload.
\<close>

definition get_centroids_const :: "('r, 'g) quantizer \<Rightarrow> int \<Rightarrow> uint8 \<Rightarrow> int" where
  "get_centroids_const q m i =
     (if m = nsubq q - 1 then m * int ksub * dsub q + uint i * lastdsub q
      else (m * int ksub + uint i) * dsub q)"

definition get_centroids :: "('r, 'g) quantizer \<Rightarrow> int \<Rightarrow> uint8 \<Rightarrow> int" where
  "get_centroids q m i =
     (if m = nsubq q - 1 then m * int ksub * dsub q + uint i * lastdsub q
      else (m * int ksub + uint i) * dsub q)"

text \<open>
  The width \<^verbatim>\<open>d\<close> that \<^verbatim>\<open>train\<close>, \<^verbatim>\<open>mulcode\<close>, \<^verbatim>\<open>addcode\<close> and \<^verbatim>\<open>compute_code\<close> use for
  subquantizer \<open>m\<close>: \<^verbatim>\<open>d = dsub_; if (m == nsubq_ - 1) d = lastdsub_;\<close>.
\<close>

definition subq_width :: "('r, 'g) quantizer \<Rightarrow> int \<Rightarrow> int" where
  "subq_width q m = (if m = nsubq q - 1 then lastdsub q else dsub q)"

text \<open>The cells of the table that centroid \<open>i\<close> of subquantizer \<open>m\<close> occupies.\<close>

definition centroid_block :: "('r, 'g) quantizer \<Rightarrow> int \<Rightarrow> uint8 \<Rightarrow> int set" where
  "centroid_block q m i = {get_centroids q m i ..< get_centroids q m i + subq_width q m}"

subsection \<open>Distance and assignment\<close>

text \<open>
  \<^verbatim>\<open>distL2(x, y, d)\<close>: the squared Euclidean distance of two blocks of \<open>d\<close> scalars.
\<close>

definition distL2 :: "real list \<Rightarrow> nat \<Rightarrow> real list \<Rightarrow> nat \<Rightarrow> nat \<Rightarrow> real" where
  "distL2 x xo y yo d =
     fold (\<lambda>i dist. let tmp = x ! (xo + i) - y ! (yo + i) in dist + tmp * tmp) [0 ..< d] 0"

text \<open>
  \<^verbatim>\<open>assign_centroid(x, c0, code, d)\<close> scans the \<open>ksub\<close> centroids that start at \<open>c0\<close>, each
  \<open>d\<close> scalars after the one before, writes the index of the best one to \<^verbatim>\<open>code[0]\<close> and
  returns its distance. The model returns the distance and the buffer \<open>code\<close> with the
  byte at offset \<open>codeo\<close> written.
\<close>

definition assign_centroid ::
    "real list \<Rightarrow> nat \<Rightarrow> real list \<Rightarrow> nat \<Rightarrow> uint8 list \<Rightarrow> nat \<Rightarrow> nat \<Rightarrow> real \<times> uint8 list" where
  "assign_centroid x xo c0 c0o code codeo d =
     (let c = c0o;
          dis = distL2 x xo c0 c d;
          code = code[codeo := 0];
          (c, dis, code) =
            fold (\<lambda>j (c, dis, code).
                    let c = c + d;
                        disij = distL2 x xo c0 c d
                    in if disij < dis then (c, disij, code[codeo := of_nat j])
                       else (c, dis, code))
                 [1 ..< ksub] (c, dis, code)
      in (dis, code))"


subsection \<open>Encoding\<close>

text \<open>
  \<^verbatim>\<open>compute_code(x, code)\<close> and \<^verbatim>\<open>compute_codes(x, codes, n)\<close>. The variable \<^verbatim>\<open>d\<close> is set
  to \<^verbatim>\<open>dsub_\<close> before the loop and to \<^verbatim>\<open>lastdsub_\<close> in its last round, so it is part of the
  state of the loop.
\<close>

definition compute_code ::
    "(real, 'g) quantizer \<Rightarrow> real list \<Rightarrow> nat \<Rightarrow> uint8 list \<Rightarrow> nat \<Rightarrow> uint8 list" where
  "compute_code q x xo code codeo =
     snd (fold (\<lambda>m (d, code).
                  let d = (if int m = nsubq q - 1 then lastdsub q else d)
                  in (d, snd (assign_centroid x (xo + nat (int m * dsub q))
                                (centroids q) (nat (get_centroids_const q (int m) 0))
                                code (codeo + m) (nat d))))
               [0 ..< nat (nsubq q)] (dsub q, code))"

definition compute_codes ::
    "(real, 'g) quantizer \<Rightarrow> real list \<Rightarrow> uint8 list \<Rightarrow> int \<Rightarrow> uint8 list" where
  "compute_codes q x codes n =
     fold (\<lambda>i codes. compute_code q x (nat (int i * dim q)) codes (nat (int i * nsubq q)))
          [0 ..< nat n] codes"







subsection \<open>Library routines on flat buffers\<close>

text \<open>
  \<^verbatim>\<open>memset(p, 0, len * sizeof(real))\<close> and \<^verbatim>\<open>memcpy(dst, src, len * sizeof(real))\<close> on
  buffers of scalars, with the pointers given as buffer and offset. The source only
  copies between blocks that do not overlap, so the copy reads the source buffer as it
  was before the call.
\<close>

definition memset_zero :: "real list \<Rightarrow> nat \<Rightarrow> nat \<Rightarrow> real list" where
  "memset_zero c co len = fold (\<lambda>j c. c[co + j := 0]) [0 ..< len] c"

definition memcpy :: "'a list \<Rightarrow> nat \<Rightarrow> 'a list \<Rightarrow> nat \<Rightarrow> nat \<Rightarrow> 'a list" where
  "memcpy dst dsto src srco len = fold (\<lambda>j dst. dst[dsto + j := src ! (srco + j)]) [0 ..< len] dst"

subsection \<open>The M-step\<close>

text \<open>
  \<^verbatim>\<open>MStep(x0, centroids, codes, d, n)\<close>, lines 92 to 103: clear the block of \<open>d * ksub\<close>
  scalars, then add every point to the centroid its code names and count it
  (\<open>MStep_add_point\<close> is the body of that loop). The buffer \<open>c\<close> with offset \<open>co\<close> is
  the pointer \<^verbatim>\<open>centroids\<close>.
\<close>

definition MStep_add_point ::
    "real list \<Rightarrow> nat \<Rightarrow> uint8 list \<Rightarrow> nat \<Rightarrow> nat
      \<Rightarrow> nat \<times> real list \<times> int list \<Rightarrow> nat \<times> real list \<times> int list" where
  "MStep_add_point x0 co codes d i =
     (\<lambda>(x, c, nelts).
        let k = unat (codes ! i);
            c = fold (\<lambda>j c. c[co + k * d + j := c ! (co + k * d + j) + x0 ! (x + j)]) [0 ..< d] c;
            nelts = nelts[k := nelts ! k + 1]
        in (x + d, c, nelts))"

definition MStep_sums ::
    "real list \<Rightarrow> real list \<Rightarrow> nat \<Rightarrow> uint8 list \<Rightarrow> nat \<Rightarrow> nat \<Rightarrow> real list \<times> int list" where
  "MStep_sums x0 c co codes d n =
     (let nelts = replicate ksub (0 :: int);
          c = memset_zero c co (d * ksub);
          (x, c, nelts) = fold (MStep_add_point x0 co codes d) [0 ..< n] (0, c, nelts)
      in (c, nelts))"

text \<open>
  Lines 105 to 114: turn the sums into means. A division whose divisor is zero has no
  value in \<open>divide_checked\<close>, and both passes hand that on, so that a run of \<open>MStep_means\<close>
  with a value is a run in which no division by zero took place.
\<close>

definition divide_checked :: "real \<Rightarrow> real \<Rightarrow> real option" where
  "divide_checked a z = (if z = 0 then None else Some (a / z))"

fun divide_block :: "real list \<Rightarrow> nat \<Rightarrow> real \<Rightarrow> nat list \<Rightarrow> real list option" where
  "divide_block c cp z [] = Some c"
| "divide_block c cp z (j # js) =
     (case divide_checked (c ! (cp + j)) z of
        None \<Rightarrow> None
      | Some v \<Rightarrow> divide_block (c[cp + j := v]) cp z js)"

fun MStep_means :: "int list \<Rightarrow> nat \<Rightarrow> nat list \<Rightarrow> nat \<times> real list \<Rightarrow> (nat \<times> real list) option" where
  "MStep_means nelts d [] s = Some s"
| "MStep_means nelts d (k # ks) (cp, c) =
     (let z = real_of_int (nelts ! k)
      in if z \<noteq> 0
         then (case divide_block c cp z [0 ..< d] of
                 None \<Rightarrow> None
               | Some c \<Rightarrow> MStep_means nelts d ks (cp + d, c))
         else MStep_means nelts d ks (cp + d, c))"

text \<open>
  Lines 116 to 122. \<^verbatim>\<open>std::uniform_real_distribution<> runiform(0, 1)\<close> applied to the
  generator is library code: \<open>runiform\<close> maps a generator state to the value drawn and
  the next state. The loop has no bound in the source, so the model is a partial
  function: \<open>None\<close> means that the loop does not return.
\<close>

partial_function (option) donor_loop ::
    "('g \<Rightarrow> real \<times> 'g) \<Rightarrow> nat \<Rightarrow> int list \<Rightarrow> nat \<Rightarrow> 'g \<Rightarrow> (nat \<times> 'g) option" where
  "donor_loop runiform n nelts m g =
     (case runiform g of
        (r, g') \<Rightarrow>
          if r * real_of_int (int n - int ksub) \<ge> real_of_int (nelts ! m - 1)
          then donor_loop runiform n nelts ((m + 1) mod ksub) g'
          else Some (m, g'))"

text \<open>Lines 123 to 128: copy the donor's centroid and push the two copies apart.\<close>

definition split_centroid :: "real \<Rightarrow> real list \<Rightarrow> nat \<Rightarrow> nat \<Rightarrow> nat \<Rightarrow> nat \<Rightarrow> real list" where
  "split_centroid epsilon c co d k m =
     (let c = memcpy c (co + k * d) c (co + m * d) d
      in fold (\<lambda>j c.
                 let sign = (int j mod 2) * 2 - 1;
                     c = c[co + k * d + j := c ! (co + k * d + j) + real_of_int sign * epsilon];
                     c = c[co + m * d + j := c ! (co + m * d + j) - real_of_int sign * epsilon]
                 in c)
              [0 ..< d] c)"

text \<open>Lines 117 to 132: the pass over the clusters that reseeds the empty ones.\<close>

fun MStep_reseed ::
    "('g \<Rightarrow> real \<times> 'g) \<Rightarrow> real \<Rightarrow> nat \<Rightarrow> nat \<Rightarrow> nat \<Rightarrow> nat list
      \<Rightarrow> real list \<times> int list \<times> 'g \<Rightarrow> (real list \<times> int list \<times> 'g) option" where
  "MStep_reseed runiform epsilon co d n [] s = Some s"
| "MStep_reseed runiform epsilon co d n (k # ks) (c, nelts, g) =
     (if nelts ! k = 0
      then (case donor_loop runiform n nelts 0 g of
              None \<Rightarrow> None
            | Some (m, g) \<Rightarrow>
                let c = split_centroid epsilon c co d k m;
                    nelts = nelts[k := cdiv (nelts ! m) 2];
                    nelts = nelts[m := nelts ! m - nelts ! k]
                in MStep_reseed runiform epsilon co d n ks (c, nelts, g))
      else MStep_reseed runiform epsilon co d n ks (c, nelts, g))"

text \<open>
  The whole of \<^verbatim>\<open>MStep\<close>. \<open>MStep_locals\<close> also returns the counts \<^verbatim>\<open>nelts\<close>, a local of
  the source whose final value the theorems on the counts are about; \<open>MStep\<close> returns
  what the caller sees: the buffer and the generator.
\<close>

definition MStep_locals ::
    "('g \<Rightarrow> real \<times> 'g) \<Rightarrow> real \<Rightarrow> real list \<Rightarrow> real list \<Rightarrow> nat \<Rightarrow> uint8 list \<Rightarrow> nat \<Rightarrow> nat \<Rightarrow> 'g
      \<Rightarrow> (real list \<times> int list \<times> 'g) option" where
  "MStep_locals runiform epsilon x0 c co codes d n g =
     (case MStep_sums x0 c co codes d n of
        (c, nelts) \<Rightarrow>
          (case MStep_means nelts d [0 ..< ksub] (co, c) of
             None \<Rightarrow> None
           | Some (cp, c) \<Rightarrow> MStep_reseed runiform epsilon co d n [0 ..< ksub] (c, nelts, g)))"


subsection \<open>k-means and training\<close>





subsection \<open>Predicates on the state of an M-step, and inputs for the examples\<close>

text \<open>
  What the counts satisfy between the phases of an M-step on \<open>n\<close> points: one count per
  cluster, none negative, \<open>n\<close> in total.
\<close>

definition counts_ok :: "nat \<Rightarrow> int list \<Rightarrow> bool" where
  "counts_ok n nelts \<longleftrightarrow> length nelts = ksub \<and> (\<forall>i < ksub. 0 \<le> nelts ! i) \<and> sum_list nelts = int n"

text \<open>Inputs for the examples: draws that are constant, and tables of counts.\<close>

definition zero_draws :: "unit \<Rightarrow> real \<times> unit" where
  "zero_draws g = (0, g)"

definition high_draws :: "unit \<Rightarrow> real \<times> unit" where
  "high_draws g = (3 / 4, g)"

definition lopsided_counts :: "int list" where
  "lopsided_counts = [46, 0] @ replicate 254 1"

definition stuck_counts :: "int list" where
  "stuck_counts = [0, 3, 3] @ replicate 253 1"

text \<open>The centroid of every cluster whose count is zero is all zero.\<close>

definition zero_blocks :: "nat \<Rightarrow> nat \<Rightarrow> real list \<Rightarrow> int list \<Rightarrow> bool" where
  "zero_blocks co d c nelts \<longleftrightarrow>
     (\<forall>k < ksub. nelts ! k = 0 \<longrightarrow> (\<forall>j < d. c ! (co + k * d + j) = 0))"



subsection \<open>Arithmetic on codes\<close>


definition addcode :: "(real, 'g) quantizer \<Rightarrow> real list \<Rightarrow> uint8 list \<Rightarrow> int \<Rightarrow> real \<Rightarrow> real list" where
  "addcode q x codes t alpha =
     (let d = dsub q;
          code = nat (nsubq q * t);
          (d, x) =
            fold (\<lambda>m (d, x).
                    let c = nat (get_centroids_const q (int m) (codes ! (code + m)));
                        d = (if int m = nsubq q - 1 then lastdsub q else d);
                        x = fold (\<lambda>n x. x[nat (int m * dsub q + int n) :=
                                          x ! nat (int m * dsub q + int n) + alpha * centroids q ! (c + n)])
                              [0 ..< nat d] x
                    in (d, x))
                 [0 ..< nat (nsubq q)] (d, x)
      in x)"

subsection \<open>Persistence\<close>

text \<open>
  \<^verbatim>\<open>save\<close> and \<^verbatim>\<open>load\<close> copy the bytes of the four \<^verbatim>\<open>int32_t\<close> members and of the
  scalars of the table. An \<^verbatim>\<open>int32_t\<close> is four bytes in two's complement, least
  significant byte first; \<open>wrap32\<close> reads 32 bits as a signed value. The bytes of a
  scalar are given by \<open>enc\<close>, and \<open>dec\<close> reads them back; \<open>w\<close> is \<^verbatim>\<open>sizeof(real)\<close>.
\<close>

definition i32_bytes :: "int \<Rightarrow> uint8 list" where
  "i32_bytes v = [word_of_int v, word_of_int (v div 256), word_of_int (v div 65536),
                  word_of_int (v div 16777216)]"

definition i32_of_bytes :: "uint8 list \<Rightarrow> int" where
  "i32_of_bytes bs =
     wrap32 (uint (bs ! 0) + 256 * uint (bs ! 1) + 65536 * uint (bs ! 2) + 16777216 * uint (bs ! 3))"

text \<open>\<^verbatim>\<open>out.write(p, n)\<close> appends the bytes to the output.\<close>

definition save :: "('r \<Rightarrow> uint8 list) \<Rightarrow> ('r, 'g) quantizer \<Rightarrow> uint8 list \<Rightarrow> uint8 list" where
  "save enc q out =
     (let out = out @ i32_bytes (dim q);
          out = out @ i32_bytes (nsubq q);
          out = out @ i32_bytes (dsub q);
          out = out @ i32_bytes (lastdsub q);
          out = out @ concat (map enc (centroids q))
      in out)"

text \<open>
  An input stream is the bytes still to come and its state. \<^verbatim>\<open>in.read(p, n)\<close> is
  library code: on a stream in good state it extracts \<open>n\<close> bytes, or, when fewer are
  left, extracts those and puts the stream into the failed state; on a stream in failed
  state it extracts nothing. It raises nothing. The bytes extracted overwrite the front
  of the object read into, and the rest of the object stays as it was.
\<close>

record istream =
  buf :: "uint8 list"
  good :: bool

definition stream_read :: "istream \<Rightarrow> nat \<Rightarrow> uint8 list \<times> istream" where
  "stream_read s n =
     (if good s
      then (if n \<le> length (buf s) then (take n (buf s), s\<lparr>buf := drop n (buf s)\<rparr>)
            else (buf s, s\<lparr>buf := [], good := False\<rparr>))
      else ([], s))"

definition read_i32 :: "istream \<Rightarrow> int \<Rightarrow> int \<times> istream" where
  "read_i32 s old =
     (case stream_read s 4 of
        (bs, s) \<Rightarrow> (i32_of_bytes (bs @ drop (length bs) (i32_bytes old)), s))"

definition read_real ::
    "('r \<Rightarrow> uint8 list) \<Rightarrow> (uint8 list \<Rightarrow> 'r) \<Rightarrow> nat \<Rightarrow> istream \<Rightarrow> 'r \<Rightarrow> 'r \<times> istream" where
  "read_real enc dec w s old =
     (case stream_read s w of
        (bs, s) \<Rightarrow> (dec (bs @ drop (length bs) (enc old)), s))"

text \<open>
  \<^verbatim>\<open>centroids_.resize(n)\<close> keeps the first \<open>n\<close> scalars and fills up with zeros. Its
  argument is a \<^verbatim>\<open>size_t\<close>: a negative \<^verbatim>\<open>int\<close> becomes a size beyond
  \<^verbatim>\<open>max_size()\<close>, for which \<^verbatim>\<open>resize\<close> raises \<^verbatim>\<open>std::length_error\<close>. In \<open>load\<close> the
  argument \<^verbatim>\<open>dim_ * ksub_\<close> is computed from a member that has just been read from the
  stream, so the product is taken as the 32 bits it has on a two's complement machine.
\<close>

definition resize :: "'r list \<Rightarrow> nat \<Rightarrow> 'r::zero list" where
  "resize xs n = take n xs @ replicate (n - length xs) 0"

definition load_header :: "istream \<Rightarrow> ('r, 'g) quantizer \<Rightarrow> ('r, 'g) quantizer \<times> istream" where
  "load_header s q =
     (let (v, s) = read_i32 s (dim q); q = q\<lparr>dim := v\<rparr>;
          (v, s) = read_i32 s (nsubq q); q = q\<lparr>nsubq := v\<rparr>;
          (v, s) = read_i32 s (dsub q); q = q\<lparr>dsub := v\<rparr>;
          (v, s) = read_i32 s (lastdsub q); q = q\<lparr>lastdsub := v\<rparr>
      in (q, s))"

definition load_table ::
    "('r \<Rightarrow> uint8 list) \<Rightarrow> (uint8 list \<Rightarrow> 'r) \<Rightarrow> nat \<Rightarrow> istream \<Rightarrow> 'r list \<Rightarrow> 'r list \<times> istream" where
  "load_table enc dec w s cs =
     fold (\<lambda>i (cs, s). case read_real enc dec w s (cs ! i) of (v, s) \<Rightarrow> (cs[i := v], s))
          [0 ..< length cs] (cs, s)"

definition load ::
    "('r \<Rightarrow> uint8 list) \<Rightarrow> (uint8 list \<Rightarrow> 'r) \<Rightarrow> nat \<Rightarrow> istream \<Rightarrow> ('r::zero, 'g) quantizer
      \<Rightarrow> (error \<times> ('r, 'g) quantizer + ('r, 'g) quantizer) \<times> istream" where
  "load enc dec w s q =
     (case load_header s q of
        (q, s) \<Rightarrow>
          let n = wrap32 (dim q * int ksub)
          in if n < 0 then (Inl (length_error, q), s)
             else
               let q = q\<lparr>centroids := resize (centroids q) (nat n)\<rparr>
               in case load_table enc dec w s (centroids q) of
                    (cs, s) \<Rightarrow> (Inr (q\<lparr>centroids := cs\<rparr>), s))"

text \<open>A scalar type of one byte, for the examples.\<close>

definition byte_enc :: "uint8 \<Rightarrow> uint8 list" where
  "byte_enc r = [r]"

definition byte_dec :: "uint8 list \<Rightarrow> uint8" where
  "byte_dec bs = bs ! 0"

definition byte_quantizer :: "(uint8, unit) quantizer" where
  "byte_quantizer = ProductQuantizer_object 25 0 65536 () 1 1 256"

section \<open>Shape of a constructed quantizer\<close>

lemma ksub_pos: "0 < ksub"
  by (simp add: ksub_def)

lemma uint_lt_ksub: "uint (i :: uint8) < int ksub"
  using uint_bounded [of i] by (simp add: ksub_def)

lemma cdiv_pos: "0 < a \<Longrightarrow> 0 < b \<Longrightarrow> cdiv a b = a div b"
  by (simp add: cdiv_def)

lemma cmod_pos: "0 < a \<Longrightarrow> 0 < b \<Longrightarrow> cmod a b = a mod b"
  by (simp add: cmod_def cdiv_pos minus_mult_div_eq_mod)

lemma ctor_fields:
  assumes "0 < dm" "0 < ds"
  shows "dim (ProductQuantizer_object ni e mp g dm ds n) = dm"
    and "dsub (ProductQuantizer_object ni e mp g dm ds n) = ds"
    and "nsubq (ProductQuantizer_object ni e mp g dm ds n) =
           (if dm mod ds = 0 then dm div ds else dm div ds + 1)"
    and "lastdsub (ProductQuantizer_object ni e mp g dm ds n) =
           (if dm mod ds = 0 then ds else dm mod ds)"
    and "centroids (ProductQuantizer_object ni e mp g dm ds n) = replicate n 0"
  using assms by (simp_all add: ProductQuantizer_object_def Let_def cdiv_pos cmod_pos)

lemma ctor_invariant:
  assumes "0 < dm" "0 < ds"
  shows "(nsubq (ProductQuantizer_object ni e mp g dm ds n) - 1) * ds
           + lastdsub (ProductQuantizer_object ni e mp g dm ds n) = dm"
proof (cases "dm mod ds = 0")
  case True
  then have "dm div ds * ds = dm" by auto
  then show ?thesis using assms True by (simp add: ctor_fields algebra_simps)
next
  case False
  have "dm div ds * ds + dm mod ds = dm" by simp
  then show ?thesis using assms False by (simp add: ctor_fields)
qed

lemma ctor_nsubq_pos:
  assumes "0 < dm" "0 < ds"
  shows "1 \<le> nsubq (ProductQuantizer_object ni e mp g dm ds n)"
proof (cases "dm mod ds = 0")
  case True
  then have "ds dvd dm" by auto
  then have "ds \<le> dm" using assms by (simp add: zdvd_imp_le)
  then have "1 \<le> dm div ds" using assms pos_imp_zdiv_pos_iff [of ds dm] by linarith
  then show ?thesis using assms True by (simp add: ctor_fields)
next
  case False
  have "0 \<le> dm div ds" using assms by (simp add: pos_imp_zdiv_nonneg_iff)
  then show ?thesis using assms False by (simp add: ctor_fields)
qed

lemma ctor_lastdsub_pos:
  assumes "0 < dm" "0 < ds"
  shows "0 < lastdsub (ProductQuantizer_object ni e mp g dm ds n)"
    and "lastdsub (ProductQuantizer_object ni e mp g dm ds n) \<le> ds"
proof -
  have nz: "dm mod ds \<noteq> 0 \<Longrightarrow> 0 < dm mod ds"
    using assms pos_mod_sign [of ds dm] by linarith
  have le: "dm mod ds \<le> ds"
    using assms pos_mod_bound [of ds dm] by linarith
  show "0 < lastdsub (ProductQuantizer_object ni e mp g dm ds n)"
    using assms nz by (simp add: ctor_fields)
  show "lastdsub (ProductQuantizer_object ni e mp g dm ds n) \<le> ds"
    using assms le by (simp add: ctor_fields)
qed

section \<open>The centroid blocks tile the table\<close>

lemma cells_disjoint:
  fixes a b w :: int
  assumes "0 < w" "a \<noteq> b"
  shows "{a * w ..< a * w + w} \<inter> {b * w ..< b * w + w} = {}"
proof -
  have *: "x * w + w \<le> y * w" if "x < y" for x y :: int
  proof -
    from that have "x + 1 \<le> y" by simp
    then have "(x + 1) * w \<le> y * w" using assms(1) by (simp add: mult_right_mono)
    then show ?thesis by (simp add: algebra_simps)
  qed
  from assms(2) consider "a < b" | "b < a" by linarith
  then show ?thesis using * [of a b] * [of b a] by cases auto
qed

lemma cell_index_unique:
  fixes K :: int
  assumes "0 \<le> i" "i < K" "0 \<le> i'" "i' < K" "m * K + i = m' * K + i'"
  shows "m = m' \<and> i = i'"
proof -
  have a: "(m * K + i) div K = m" using assms(1,2) by simp
  have b: "(m' * K + i') div K = m'" using assms(3,4) by simp
  have "m = m'" by (metis a b assms(5))
  then show ?thesis using assms(5) by simp
qed

lemma block_inner:
  assumes "m \<noteq> nsubq q - 1"
  shows "centroid_block q m i =
     {(m * int ksub + uint i) * dsub q ..< (m * int ksub + uint i) * dsub q + dsub q}"
  using assms by (simp add: centroid_block_def get_centroids_def subq_width_def)

lemma block_last:
  "centroid_block q (nsubq q - 1) i =
     {(nsubq q - 1) * int ksub * dsub q + uint i * lastdsub q ..<
      (nsubq q - 1) * int ksub * dsub q + uint i * lastdsub q + lastdsub q}"
  by (simp add: centroid_block_def get_centroids_def subq_width_def)

lemma block_inner_below:
  assumes "0 < dsub q" "0 \<le> m" "m < nsubq q - 1"
  shows "centroid_block q m i \<subseteq> {0 ..< (nsubq q - 1) * int ksub * dsub q}"
proof -
  let ?c = "m * int ksub + uint i"
  have "0 \<le> m * int ksub" using assms by simp
  then have c0: "0 \<le> ?c" by simp
  have "m + 1 \<le> nsubq q - 1" using assms by simp
  then have "(m + 1) * int ksub \<le> (nsubq q - 1) * int ksub"
    by (simp add: mult_right_mono)
  then have "?c + 1 \<le> (nsubq q - 1) * int ksub"
    using uint_lt_ksub [of i] by (simp add: algebra_simps)
  then have "(?c + 1) * dsub q \<le> (nsubq q - 1) * int ksub * dsub q"
    using assms(1) by (simp add: mult_right_mono)
  then have hi: "?c * dsub q + dsub q \<le> (nsubq q - 1) * int ksub * dsub q"
    by (simp add: algebra_simps)
  have lo: "0 \<le> ?c * dsub q" using c0 assms(1) by simp
  show ?thesis using assms lo hi by (auto simp add: block_inner)
qed

lemma block_last_above:
  assumes "0 < lastdsub q"
  shows "centroid_block q (nsubq q - 1) i \<subseteq>
     {(nsubq q - 1) * int ksub * dsub q ..<
      (nsubq q - 1) * int ksub * dsub q + int ksub * lastdsub q}"
proof -
  have "uint i + 1 \<le> int ksub" using uint_lt_ksub [of i] by simp
  then have "(uint i + 1) * lastdsub q \<le> int ksub * lastdsub q"
    using assms by (simp add: mult_right_mono)
  then have hi: "uint i * lastdsub q + lastdsub q \<le> int ksub * lastdsub q"
    by (simp add: algebra_simps)
  have lo: "0 \<le> uint i * lastdsub q" using assms by simp
  show ?thesis using lo hi by (auto simp add: block_last)
qed

lemma blocks_disjoint:
  assumes "0 < dsub q" "0 < lastdsub q"
    and "0 \<le> m" "m < nsubq q" "0 \<le> m'" "m' < nsubq q"
    and "(m, i) \<noteq> (m', i')"
  shows "centroid_block q m i \<inter> centroid_block q m' i' = {}"
proof -
  consider (inner) "m < nsubq q - 1" "m' < nsubq q - 1"
    | (last) "m = nsubq q - 1" "m' = nsubq q - 1"
    | (lo_hi) "m < nsubq q - 1" "m' = nsubq q - 1"
    | (hi_lo) "m = nsubq q - 1" "m' < nsubq q - 1"
    using assms by linarith
  then show ?thesis
  proof cases
    case inner
    have "m * int ksub + uint i \<noteq> m' * int ksub + uint i'"
      using cell_index_unique [of "uint i" "int ksub" "uint i'" m m']
        uint_lt_ksub [of i] uint_lt_ksub [of i'] assms(7) by (auto simp add: word_uint_eq_iff)
    then show ?thesis
      using inner cells_disjoint [OF assms(1)] by (simp add: block_inner)
  next
    case last
    then have "uint i \<noteq> uint i'" using assms(7) by (auto simp add: word_uint_eq_iff)
    from cells_disjoint [OF assms(2) this]
    have "{uint i * lastdsub q ..< uint i * lastdsub q + lastdsub q}
          \<inter> {uint i' * lastdsub q ..< uint i' * lastdsub q + lastdsub q} = {}" .
    then show ?thesis unfolding last block_last by auto
  next
    case lo_hi
    have "centroid_block q m i \<inter> centroid_block q m' i'
        \<subseteq> {0 ..< (nsubq q - 1) * int ksub * dsub q}
          \<inter> {(nsubq q - 1) * int ksub * dsub q ..<
              (nsubq q - 1) * int ksub * dsub q + int ksub * lastdsub q}"
      using block_inner_below [OF assms(1,3) lo_hi(1), of i]
        block_last_above [OF assms(2), of i'] lo_hi(2) by blast
    then show ?thesis by auto
  next
    case hi_lo
    have "centroid_block q m i \<inter> centroid_block q m' i'
        \<subseteq> {0 ..< (nsubq q - 1) * int ksub * dsub q}
          \<inter> {(nsubq q - 1) * int ksub * dsub q ..<
              (nsubq q - 1) * int ksub * dsub q + int ksub * lastdsub q}"
      using block_inner_below [OF assms(1,5) hi_lo(2), of i']
        block_last_above [OF assms(2), of i] hi_lo(1) by blast
    then show ?thesis by auto
  qed
qed


lemma blocks_inside:
  assumes "0 < dsub q" "0 < lastdsub q" "0 \<le> m" "m < nsubq q"
  shows "centroid_block q m i \<subseteq>
           {0 ..< ((nsubq q - 1) * dsub q + lastdsub q) * int ksub}"
proof -
  have base: "0 \<le> (nsubq q - 1) * int ksub * dsub q" using assms by simp
  have top: "0 \<le> int ksub * lastdsub q" using assms by simp
  have eq: "((nsubq q - 1) * dsub q + lastdsub q) * int ksub
      = (nsubq q - 1) * int ksub * dsub q + int ksub * lastdsub q"
    by (simp add: algebra_simps)
  show ?thesis
  proof (cases "m = nsubq q - 1")
    case True
    then show ?thesis
      using block_last_above [OF assms(2), of i] base unfolding eq by auto
  next
    case False
    then have "m < nsubq q - 1" using assms by simp
    from block_inner_below [OF assms(1,3) this, of i] show ?thesis
      using top unfolding eq by auto
  qed
qed

lemma blocks_cover:
  assumes "0 < dsub q" "0 < lastdsub q" "1 \<le> nsubq q"
    and "0 \<le> p" "p < ((nsubq q - 1) * dsub q + lastdsub q) * int ksub"
  shows "\<exists>m i. 0 \<le> m \<and> m < nsubq q \<and> p \<in> centroid_block q m i"
proof (cases "p < (nsubq q - 1) * int ksub * dsub q")
  case True
  define c where "c = p div dsub q"
  define m where "m = c div int ksub"
  define j where "j = c mod int ksub"
  have c0: "0 \<le> c" using assms by (simp add: c_def pos_imp_zdiv_nonneg_iff)
  have pc: "p = c * dsub q + p mod dsub q" by (simp add: c_def)
  have "0 \<le> p mod dsub q" "p mod dsub q < dsub q" using assms(1) by simp_all
  then have cp: "c * dsub q \<le> p" "p < c * dsub q + dsub q" using pc by linarith+
  have "c * dsub q < (nsubq q - 1) * int ksub * dsub q" using cp True by linarith
  then have cK: "c < (nsubq q - 1) * int ksub" using assms(1) by simp
  have m0: "0 \<le> m" using c0 ksub_pos by (simp add: m_def pos_imp_zdiv_nonneg_iff)
  have j0: "0 \<le> j" "j < int ksub" using ksub_pos by (simp_all add: j_def)
  have cmj: "c = m * int ksub + j" by (simp add: m_def j_def)
  have "m * int ksub < (nsubq q - 1) * int ksub" using cK cmj j0 by linarith
  then have mlt: "m < nsubq q - 1" using ksub_pos by simp
  define i :: uint8 where "i = word_of_int j"
  have ui: "uint i = j" using j0 by (simp add: i_def ksub_def uint_word_of_int take_bit_int_eq_self)
  have "p \<in> centroid_block q m i"
    using mlt cp by (simp add: block_inner ui cmj [symmetric])
  then show ?thesis using m0 mlt by (intro exI [of _ m] exI [of _ i]) simp
next
  case False
  define r where "r = p - (nsubq q - 1) * int ksub * dsub q"
  define j where "j = r div lastdsub q"
  have r0: "0 \<le> r" using False by (simp add: r_def)
  have rlt: "r < int ksub * lastdsub q" using assms(5) by (simp add: r_def algebra_simps)
  have j0: "0 \<le> j" using r0 assms(2) by (simp add: j_def pos_imp_zdiv_nonneg_iff)
  have rj: "r = j * lastdsub q + r mod lastdsub q" by (simp add: j_def)
  have "0 \<le> r mod lastdsub q" "r mod lastdsub q < lastdsub q" using assms(2) by simp_all
  then have jp: "j * lastdsub q \<le> r" "r < j * lastdsub q + lastdsub q" using rj by linarith+
  have "j * lastdsub q < int ksub * lastdsub q" using jp rlt by linarith
  then have jK: "j < int ksub" using assms(2) by simp
  define i :: uint8 where "i = word_of_int j"
  have ui: "uint i = j" using j0 jK by (simp add: i_def ksub_def uint_word_of_int take_bit_int_eq_self)
  have "p \<in> centroid_block q (nsubq q - 1) i"
    using jp by (simp add: block_last ui r_def)
  then show ?thesis using assms(3)
    by (intro exI [of _ "nsubq q - 1"] exI [of _ i]) simp
qed


lemma widths_sum:
  assumes "1 \<le> nsubq q"
  shows "(\<Sum>m\<in>{0 ..< nsubq q}. subq_width q m) = (nsubq q - 1) * dsub q + lastdsub q"
proof -
  have split: "{0 ..< nsubq q} = insert (nsubq q - 1) {0 ..< nsubq q - 1}"
    using assms by auto
  have inner: "(\<Sum>m\<in>{0 ..< nsubq q - 1}. subq_width q m) = (\<Sum>m\<in>{0 ..< nsubq q - 1}. dsub q)"
    by (rule sum.cong) (simp_all add: subq_width_def)
  have "(\<Sum>m\<in>{0 ..< nsubq q}. subq_width q m)
      = subq_width q (nsubq q - 1) + (\<Sum>m\<in>{0 ..< nsubq q - 1}. subq_width q m)"
    unfolding split by (rule sum.insert) simp_all
  also have "\<dots> = lastdsub q + (nsubq q - 1) * dsub q"
    using assms unfolding inner by (simp add: subq_width_def)
  finally show ?thesis by simp
qed

lemma wrap32_representable:
  assumes "0 \<le> v" and "v \<le> INT32_MAX"
  shows "wrap32 v = v"
proof -
  have "v + 2147483648 < 4294967296" and "0 \<le> v + 2147483648"
    using assms by (simp_all add: INT32_MAX_def)
  then have "(v + 2147483648) mod 4294967296 = v + 2147483648" by simp
  then show ?thesis by (simp add: wrap32_def)
qed

lemma ctor_returns:
  assumes "0 < dm" and "dm * int ksub \<le> INT32_MAX"
  shows "ProductQuantizer ni e mp g dm ds
    = Inr (ProductQuantizer_object ni e mp g dm ds (nat (dm * int ksub)))"
proof -
  have "0 \<le> dm * int ksub" using assms(1) by simp
  from wrap32_representable [OF this assms(2)] this
  show ?thesis by (simp add: ProductQuantizer_def Let_def)
qed

text \<open>
  C1. With positive \<open>dim\<close> and \<open>dsub\<close> (neither divisibility nor \<open>dsub \<le> dim\<close> is asked
  for) and a table size \<open>dim * 256\<close> that an \<^verbatim>\<open>int32_t\<close> holds, the constructor returns a
  quantizer. It has \<open>lastdsub = dim % dsub\<close> when that is not zero and \<open>dsub\<close> otherwise,
  and \<open>(nsubq - 1) * dsub + lastdsub = dim\<close>. The widths of the subquantizers add up to
  \<open>dim\<close>. The blocks that \<open>get_centroids\<close> addresses, of width \<open>dsub\<close> for every
  subquantizer but the last and \<open>lastdsub\<close> for the last, are pairwise disjoint and
  together are exactly the index range of the table of \<open>dim * 256\<close> scalars. The
  read-only and the mutable accessor return the same address. Every index computed lies
  below \<open>dim * 256\<close>, so no \<^verbatim>\<open>int32_t\<close> operation overflows. The bound on the table
  size cannot be dropped, as the instance after the theorem shows.
\<close>

theorem constructed_shape_tiles_table:
  assumes "0 < dm" and "0 < ds" and "dm * int ksub \<le> INT32_MAX"
  shows "\<exists>q :: ('r::zero, 'g) quantizer. ProductQuantizer ni e mp g dm ds = Inr q
    \<and> dim q = dm \<and> dsub q = ds
    \<and> lastdsub q = (if dm mod ds \<noteq> 0 then dm mod ds else ds)
    \<and> nsubq q = (if dm mod ds \<noteq> 0 then dm div ds + 1 else dm div ds)
    \<and> (nsubq q - 1) * dsub q + lastdsub q = dim q
    \<and> (\<Sum>m\<in>{0 ..< nsubq q}. subq_width q m) = dim q
    \<and> length (centroids q) = nat (dim q * 256)
    \<and> (\<forall>m i m' i'. 0 \<le> m \<and> m < nsubq q \<and> 0 \<le> m' \<and> m' < nsubq q \<and> (m, i) \<noteq> (m', i')
          \<longrightarrow> centroid_block q m i \<inter> centroid_block q m' i' = {})
    \<and> (\<Union>m\<in>{0 ..< nsubq q}. \<Union>i. centroid_block q m i) = {0 ..< dim q * 256}
    \<and> (\<forall>m i. get_centroids_const q m i = get_centroids q m i)"
proof -
  define n where "n = nat (dm * int ksub)"
  define q :: "('r, 'g) quantizer" where "q = ProductQuantizer_object ni e mp g dm ds n"
  have ret: "ProductQuantizer ni e mp g dm ds = Inr q"
    unfolding q_def n_def by (rule ctor_returns [OF assms(1,3)])
  note f = ctor_fields [OF assms(1,2), of ni e mp g n]
  have inv: "(nsubq q - 1) * dsub q + lastdsub q = dim q"
    unfolding q_def using ctor_invariant [OF assms(1,2), of ni e mp g n] by (simp add: f)
  have n1: "1 \<le> nsubq q"
    unfolding q_def by (rule ctor_nsubq_pos [OF assms(1,2)])
  have l0: "0 < lastdsub q"
    unfolding q_def by (rule ctor_lastdsub_pos(1) [OF assms(1,2)])
  have d0: "0 < dsub q" unfolding q_def using assms(2) by (simp add: f)
  have k: "int ksub = 256" by (simp add: ksub_def)
  have shape: "dim q = dm \<and> dsub q = ds
      \<and> lastdsub q = (if dm mod ds \<noteq> 0 then dm mod ds else ds)
      \<and> nsubq q = (if dm mod ds \<noteq> 0 then dm div ds + 1 else dm div ds)"
    unfolding q_def by (simp add: f)
  have widths: "(\<Sum>m\<in>{0 ..< nsubq q}. subq_width q m) = dim q"
    using widths_sum [OF n1] inv by simp
  have len: "length (centroids q) = nat (dim q * 256)"
    using f unfolding q_def n_def k by simp
  have disj: "\<forall>m i m' i'. 0 \<le> m \<and> m < nsubq q \<and> 0 \<le> m' \<and> m' < nsubq q \<and> (m, i) \<noteq> (m', i')
      \<longrightarrow> centroid_block q m i \<inter> centroid_block q m' i' = {}"
    using blocks_disjoint [OF d0 l0] by blast
  have cover: "(\<Union>m\<in>{0 ..< nsubq q}. \<Union>i. centroid_block q m i) = {0 ..< dim q * 256}"
  proof (rule equalityI; rule subsetI)
    fix p assume "p \<in> (\<Union>m\<in>{0 ..< nsubq q}. \<Union>i. centroid_block q m i)"
    then obtain m i where "0 \<le> m" "m < nsubq q" "p \<in> centroid_block q m i" by auto
    then show "p \<in> {0 ..< dim q * 256}"
      using blocks_inside [OF d0 l0, of m i] unfolding inv k by auto
  next
    fix p assume "p \<in> {0 ..< dim q * 256}"
    then have "0 \<le> p" "p < ((nsubq q - 1) * dsub q + lastdsub q) * int ksub"
      unfolding inv k by simp_all
    from blocks_cover [OF d0 l0 n1 this]
    show "p \<in> (\<Union>m\<in>{0 ..< nsubq q}. \<Union>i. centroid_block q m i)" by auto
  qed
  have acc: "\<forall>m i. get_centroids_const q m i = get_centroids q m i"
    by (simp add: get_centroids_const_def get_centroids_def)
  show ?thesis
    by (rule exI [of _ q]) (intro conjI ret shape [THEN conjunct1]
      shape [THEN conjunct2, THEN conjunct1] shape [THEN conjunct2, THEN conjunct2, THEN conjunct1]
      shape [THEN conjunct2, THEN conjunct2, THEN conjunct2] inv widths len disj cover acc)
qed

theorem constructed_shape_tiles_table_witness:
  "(0::int) < 5 \<and> (0::int) < 2 \<and> 5 * int ksub \<le> INT32_MAX \<and> 2 * int ksub \<le> INT32_MAX
   \<and> (\<exists>q. ProductQuantizer 25 (0::real) 65536 () 5 2 = Inr q
        \<and> nsubq q = 3 \<and> lastdsub q = 1
        \<and> (\<Sum>m\<in>{0 ..< 3}. subq_width q m) = 5
        \<and> length (centroids q) = 1280
        \<and> centroid_block q 1 255 \<inter> centroid_block q 2 0 = {})
   \<and> (\<exists>q. ProductQuantizer 25 (0::real) 65536 () 2 5 = Inr q
        \<and> lastdsub q = 2 \<and> nsubq q = 1)"
proof -
  have a: "(0::int) < 5" and b: "(0::int) < 2" by simp_all
  have c: "5 * int ksub \<le> INT32_MAX" and d: "2 * int ksub \<le> INT32_MAX"
    by (simp_all add: ksub_def INT32_MAX_def)
  from constructed_shape_tiles_table [OF a b c, of 25 "0::real" 65536 "()"]
  obtain q where q: "ProductQuantizer 25 (0::real) 65536 () 5 2 = Inr q"
    "dim q = 5" "dsub q = 2" "lastdsub q = (if (5::int) mod 2 \<noteq> 0 then 5 mod 2 else 2)"
    "nsubq q = (if (5::int) mod 2 \<noteq> 0 then 5 div 2 + 1 else 5 div 2)"
    "(\<Sum>m\<in>{0 ..< nsubq q}. subq_width q m) = dim q"
    "length (centroids q) = nat (dim q * 256)"
    "\<forall>m i m' i'. 0 \<le> m \<and> m < nsubq q \<and> 0 \<le> m' \<and> m' < nsubq q \<and> (m, i) \<noteq> (m', i')
          \<longrightarrow> centroid_block q m i \<inter> centroid_block q m' i' = {}"
    by (elim exE conjE)
  from constructed_shape_tiles_table [OF b a d, of 25 "0::real" 65536 "()"]
  obtain r where r: "ProductQuantizer 25 (0::real) 65536 () 2 5 = Inr r"
    "lastdsub r = (if (2::int) mod 5 \<noteq> 0 then 2 mod 5 else 5)"
    "nsubq r = (if (2::int) mod 5 \<noteq> 0 then 2 div 5 + 1 else 2 div 5)"
    by (elim exE conjE)
  have n: "nsubq q = 3" and l: "lastdsub q = 1" using q(4,5) by simp_all
  have blk: "centroid_block q 1 255 \<inter> centroid_block q 2 0 = {}"
    using q(8) [rule_format, of 1 2 255 0] n by simp
  have sm: "(\<Sum>m\<in>{0 ..< 3}. subq_width q m) = 5" using q(6) n q(2) by simp
  have len: "length (centroids q) = 1280" using q(7) q(2) by simp
  have e1: "\<exists>q. ProductQuantizer 25 (0::real) 65536 () 5 2 = Inr q
        \<and> nsubq q = 3 \<and> lastdsub q = 1
        \<and> (\<Sum>m\<in>{0 ..< 3}. subq_width q m) = 5
        \<and> length (centroids q) = 1280
        \<and> centroid_block q 1 255 \<inter> centroid_block q 2 0 = {}"
    by (rule exI [of _ q]) (intro conjI q(1) n l sm len blk)
  have e2: "\<exists>q. ProductQuantizer 25 (0::real) 65536 () 2 5 = Inr q
        \<and> lastdsub q = 2 \<and> nsubq q = 1"
    using r by (intro exI [of _ r]) simp
  from a b c d e1 e2 show ?thesis by (intro conjI)
qed

text \<open>
  The bound on the table size is needed. With \<open>dim = 2 ^ 23\<close> the product \<open>dim * 256\<close>
  is \<open>2 ^ 31\<close>, which as an \<^verbatim>\<open>int32_t\<close> is negative: the vector raises
  \<^verbatim>\<open>std::length_error\<close> and no quantizer is constructed. With \<open>dim = 2 ^ 24\<close> the product
  has 32 zero bits: the quantizer is constructed with an empty table, which no block
  lies in.
\<close>

theorem constructor_table_size_overflows:
  "(0::int) < 8388608 \<and> (0::int) < 1
   \<and> ProductQuantizer 25 (0::real) 65536 () 8388608 1 = Inl length_error
   \<and> (\<exists>q. ProductQuantizer 25 (0::real) 65536 () 16777216 1 = Inr q
        \<and> dim q = 16777216 \<and> centroids q = []
        \<and> length (centroids q) \<noteq> nat (dim q * 256))"
  by (simp add: ProductQuantizer_def ProductQuantizer_object_def wrap32_def ksub_def
    Let_def cdiv_def cmod_def)

section \<open>Nearest-centroid assignment and encoding\<close>








lemma unat_lt_ksub: "unat (i :: uint8) < ksub"
  using unsigned_less [of i, where ?'a = nat] by (simp add: ksub_def)



lemma fold_update_length:
  "length (fold (\<lambda>m code. code[o' + m := b m]) [0 ..< n] code) = length code"
  by (induction n) simp_all

lemma fold_update_nth:
  "k < length code \<Longrightarrow>
   fold (\<lambda>m code. code[o' + m := b m]) [0 ..< n] code ! k
     = (if o' \<le> k \<and> k < o' + n then b (k - o') else code ! k)"
proof (induction n)
  case 0 then show ?case by auto
next
  case (Suc n)
  then show ?case
    by (cases "k = o' + n") (auto simp add: nth_list_update fold_update_length)
qed










section \<open>The donor loop\<close>

lemma donor_loop_sound_aux:
  assumes "donor_loop ru n nelts m g = Some y"
  shows "m < ksub \<longrightarrow> (\<forall>g. 0 \<le> fst (ru g)) \<longrightarrow> ksub \<le> n \<longrightarrow> fst y < ksub \<and> 2 \<le> nelts ! fst y"
proof (rule donor_loop.raw_induct [where P = "\<lambda>ru n nelts m g y.
    m < ksub \<longrightarrow> (\<forall>g. 0 \<le> fst (ru g)) \<longrightarrow> ksub \<le> n \<longrightarrow> fst y < ksub \<and> 2 \<le> nelts ! fst y",
    OF _ assms], goal_cases)
  case (1 lp ru n nelts m g y)
  show ?case
  proof (intro impI)
    assume m: "m < ksub" and r: "\<forall>g. 0 \<le> fst (ru g)" and n: "ksub \<le> n"
    obtain r' g' where rg: "ru g = (r', g')" by (cases "ru g")
    have r0: "0 \<le> r'" using r [rule_format, of g] rg by simp
    show "fst y < ksub \<and> 2 \<le> nelts ! fst y"
    proof (cases "real_of_int (nelts ! m - 1) \<le> r' * real_of_int (int n - int ksub)")
      case True
      then have "lp ru n nelts ((m + 1) mod ksub) g' = Some y" using 1(2) rg by simp
      moreover have "(m + 1) mod ksub < ksub" using ksub_pos by simp
      ultimately show ?thesis using 1(1) r n by blast
    next
      case False
      then have y: "y = (m, g')" using 1(2) rg by simp
      have "0 \<le> r' * real_of_int (int n - int ksub)" using r0 n by simp
      then have "0 < real_of_int (nelts ! m - 1)" using False by linarith
      then have "2 \<le> nelts ! m" by simp
      then show ?thesis using y m by simp
    qed
  qed
qed

lemma donor_loop_sound:
  assumes "donor_loop ru n nelts m g = Some (m', g')"
    and "m < ksub" and "\<forall>g. 0 \<le> fst (ru g)" and "ksub \<le> n"
  shows "m' < ksub \<and> 2 \<le> nelts ! m'"
  using donor_loop_sound_aux [OF assms(1)] assms(2-4) by simp

lemma donor_loop_reaches:
  assumes "2 \<le> nelts ! ms"
    and "\<forall>g. fst (ru g) * real_of_int (int n - int ksub) < 1"
  shows "m < ksub \<Longrightarrow> (m + j) mod ksub = ms \<Longrightarrow> \<exists>m' g'. donor_loop ru n nelts m g = Some (m', g')"
proof (induction j arbitrary: m g)
  case 0
  then have "m = ms" by simp
  obtain r' g' where rg: "ru g = (r', g')" by (cases "ru g")
  have "r' * real_of_int (int n - int ksub) < 1" using assms(2) [rule_format, of g] rg by simp
  moreover have "1 \<le> real_of_int (nelts ! m - 1)" using assms(1) \<open>m = ms\<close> by simp
  ultimately have "\<not> real_of_int (nelts ! m - 1) \<le> r' * real_of_int (int n - int ksub)" by linarith
  then show ?case by (subst donor_loop.simps) (simp add: rg)
next
  case (Suc j)
  obtain r' g' where rg: "ru g = (r', g')" by (cases "ru g")
  show ?case
  proof (cases "real_of_int (nelts ! m - 1) \<le> r' * real_of_int (int n - int ksub)")
    case True
    have "((m + 1) mod ksub + j) mod ksub = ms"
      using Suc.prems(2) by (simp add: mod_add_left_eq)
    moreover have "(m + 1) mod ksub < ksub" using ksub_pos by simp
    ultimately obtain m' g'' where "donor_loop ru n nelts ((m + 1) mod ksub) g' = Some (m', g'')"
      using Suc.IH by blast
    then show ?thesis using True by (subst donor_loop.simps) (simp add: rg)
  next
    case False
    then show ?thesis by (subst donor_loop.simps) (simp add: rg)
  qed
qed

lemma donor_loop_terminates:
  assumes "ms < ksub" and "2 \<le> nelts ! ms"
    and "\<forall>g. fst (ru g) * real_of_int (int n - int ksub) < 1"
  shows "\<exists>m' g'. donor_loop ru n nelts 0 g = Some (m', g')"
  using donor_loop_reaches [OF assms(2,3), of 0 ms g] assms(1) ksub_pos by simp

lemma donor_loop_diverges_aux:
  assumes "donor_loop ru n nelts m g = Some y"
  shows "m < ksub \<longrightarrow>
     (\<forall>m<ksub. \<forall>g. real_of_int (nelts ! m - 1) \<le> fst (ru g) * real_of_int (int n - int ksub))
     \<longrightarrow> False"
proof (rule donor_loop.raw_induct [where P = "\<lambda>ru n nelts m g y. m < ksub \<longrightarrow>
     (\<forall>m<ksub. \<forall>g. real_of_int (nelts ! m - 1) \<le> fst (ru g) * real_of_int (int n - int ksub))
     \<longrightarrow> False", OF _ assms], goal_cases)
  case (1 lp ru n nelts m g y)
  show ?case
  proof (intro impI)
    assume m: "m < ksub"
      and a: "\<forall>m<ksub. \<forall>g. real_of_int (nelts ! m - 1) \<le> fst (ru g) * real_of_int (int n - int ksub)"
    obtain r' g' where rg: "ru g = (r', g')" by (cases "ru g")
    have "real_of_int (nelts ! m - 1) \<le> r' * real_of_int (int n - int ksub)"
      using a [rule_format, OF m, of g] rg by simp
    then have "lp ru n nelts ((m + 1) mod ksub) g' = Some y" using 1(2) rg by simp
    moreover have "(m + 1) mod ksub < ksub" using ksub_pos by simp
    ultimately show False using 1(1) a by blast
  qed
qed

lemma donor_loop_diverges:
  assumes "m < ksub"
    and "\<forall>m<ksub. \<forall>g. real_of_int (nelts ! m - 1) \<le> fst (ru g) * real_of_int (int n - int ksub)"
  shows "donor_loop ru n nelts m g = None"
proof (cases "donor_loop ru n nelts m g")
  case None then show ?thesis .
next
  case (Some y)
  from donor_loop_diverges_aux [OF this] assms show ?thesis by blast
qed

lemma some_count_ge_2:
  assumes "length nelts = ksub"
    and "sum_list nelts = int n" and "ksub \<le> n" and "k < ksub" and "nelts ! k = 0"
  shows "\<exists>ms < ksub. 2 \<le> nelts ! ms"
proof (rule ccontr)
  assume "\<not> ?thesis"
  then have "\<not> 2 \<le> nelts ! i" if "i < ksub" for i using that by blast
  then have le1: "nelts ! i \<le> 1" if "i < ksub" for i using that by fastforce
  have "sum_list nelts = (\<Sum>i \<in> {0 ..< ksub}. nelts ! i)"
    using assms(1) by (simp add: sum_list_sum_nth)
  also have "{0 ..< ksub} = insert k ({0 ..< ksub} - {k})" using assms(4) by auto
  also have "(\<Sum>i \<in> insert k ({0 ..< ksub} - {k}). nelts ! i)
      = nelts ! k + (\<Sum>i \<in> {0 ..< ksub} - {k}. nelts ! i)"
    by (rule sum.insert) simp_all
  also have "(\<Sum>i \<in> {0 ..< ksub} - {k}. nelts ! i) \<le> (\<Sum>i \<in> {0 ..< ksub} - {k}. 1)"
    by (rule sum_mono) (simp add: le1)
  also have "(\<Sum>i \<in> {0 ..< ksub} - {k}. (1::int)) = int ksub - 1"
    using assms(4) by (simp add: card_Diff_singleton)
  finally have "sum_list nelts \<le> int ksub - 1" using assms(5) by simp
  then show False using assms(2,3) by simp
qed

section \<open>Counts through the reseed pass\<close>

lemma sum_list_update_int:
  fixes xs :: "int list"
  shows "k < length xs \<Longrightarrow> sum_list (xs[k := x]) = sum_list xs + x - xs ! k"
proof (induction xs arbitrary: k)
  case Nil then show ?case by simp
next
  case (Cons a xs) then show ?case by (cases k) simp_all
qed

lemma counts_ok_split:
  assumes ok: "counts_ok n nelts" and k: "k < ksub" "nelts ! k = 0"
    and m: "m < ksub" "2 \<le> nelts ! m"
  defines "nelts1 \<equiv> nelts[k := cdiv (nelts ! m) 2]"
  defines "nelts2 \<equiv> nelts1[m := nelts1 ! m - nelts1 ! k]"
  shows "counts_ok n nelts2"
    and "1 \<le> nelts2 ! k" and "1 \<le> nelts2 ! m"
    and "\<And>i. i < ksub \<Longrightarrow> i \<noteq> k \<Longrightarrow> i \<noteq> m \<Longrightarrow> nelts2 ! i = nelts ! i"
proof -
  have len: "length nelts = ksub" using ok by (simp add: counts_ok_def)
  have km: "k \<noteq> m" using k m by auto
  have h: "cdiv (nelts ! m) 2 = nelts ! m div 2" using m by (simp add: cdiv_pos)
  have h1: "1 \<le> nelts ! m div 2" using m by simp
  have h2: "1 \<le> nelts ! m - nelts ! m div 2" using m by simp
  have n1k: "nelts1 ! k = nelts ! m div 2" using k len by (simp add: nelts1_def h)
  have n1m: "nelts1 ! m = nelts ! m" using km by (simp add: nelts1_def)
  show k2: "1 \<le> nelts2 ! k" using km k len h1 n1k by (simp add: nelts2_def nelts1_def)
  show m2: "1 \<le> nelts2 ! m" using m len h2 n1k n1m by (simp add: nelts2_def nelts1_def)
  show other: "nelts2 ! i = nelts ! i" if "i < ksub" "i \<noteq> k" "i \<noteq> m" for i
    using that by (simp add: nelts2_def nelts1_def)
  have s1: "sum_list nelts1 = sum_list nelts + nelts ! m div 2"
    using k len by (simp add: nelts1_def sum_list_update_int h)
  have s2: "sum_list nelts2 = sum_list nelts1 + (nelts1 ! m - nelts1 ! k) - nelts1 ! m"
    using m len by (simp add: nelts2_def nelts1_def sum_list_update_int)
  have "sum_list nelts2 = sum_list nelts" using s1 s2 n1k n1m by simp
  moreover have "length nelts2 = ksub" using len by (simp add: nelts2_def nelts1_def)
  moreover have "0 \<le> nelts2 ! i" if "i < ksub" for i
  proof -
    have "0 \<le> nelts ! i" using ok that by (simp add: counts_ok_def)
    then show ?thesis using k2 m2 other [OF that] by (cases "i = k"; cases "i = m") auto
  qed
  ultimately show "counts_ok n nelts2" using ok by (simp add: counts_ok_def)
qed

lemma reseed_counts:
  assumes "\<forall>g. 0 \<le> fst (ru g)" and "ksub \<le> n"
  shows "MStep_reseed ru ep co d n ks (c, nelts, g) = Some (c', nelts', g') \<Longrightarrow>
         counts_ok n nelts \<Longrightarrow> \<forall>k \<in> set ks. k < ksub \<Longrightarrow>
         counts_ok n nelts' \<and> (\<forall>i < ksub. i \<in> set ks \<or> 1 \<le> nelts ! i \<longrightarrow> 1 \<le> nelts' ! i)"
proof (induction ks arbitrary: c nelts g)
  case Nil
  then show ?case by simp
next
  case (Cons k ks)
  have k: "k < ksub" using Cons.prems(3) by simp
  have ks: "\<forall>k \<in> set ks. k < ksub" using Cons.prems(3) by simp
  show ?case
  proof (cases "nelts ! k = 0")
    case False
    then have run: "MStep_reseed ru ep co d n ks (c, nelts, g) = Some (c', nelts', g')"
      using Cons.prems(1) by simp
    have "0 \<le> nelts ! k" using Cons.prems(2) k by (simp add: counts_ok_def)
    then have "1 \<le> nelts ! k" using False by simp
    then show ?thesis using Cons.IH [OF run Cons.prems(2) ks] by auto
  next
    case True
    then obtain m g1 where dl: "donor_loop ru n nelts 0 g = Some (m, g1)"
      using Cons.prems(1) by (auto split: option.splits)
    have m: "m < ksub" "2 \<le> nelts ! m"
      using donor_loop_sound [OF dl ksub_pos assms] by simp_all
    define nelts1 where "nelts1 = nelts[k := cdiv (nelts ! m) 2]"
    define nelts2 where "nelts2 = nelts1[m := nelts1 ! m - nelts1 ! k]"
    note sp = counts_ok_split [OF Cons.prems(2) k True m, folded nelts1_def, folded nelts2_def]
    have run: "MStep_reseed ru ep co d n ks (split_centroid ep c co d k m, nelts2, g1)
        = Some (c', nelts', g')"
      using Cons.prems(1) True dl by (simp add: Let_def nelts1_def nelts2_def)
    note ih = Cons.IH [OF run sp(1) ks]
    have "1 \<le> nelts' ! i" if i: "i < ksub" "i \<in> set (k # ks) \<or> 1 \<le> nelts ! i" for i
    proof -
      have "i \<in> set ks \<or> 1 \<le> nelts2 ! i"
        using i sp(2,3) sp(4) [of i] True by (cases "i = k"; cases "i = m") auto
      then show ?thesis using ih i(1) by blast
    qed
    then show ?thesis using ih by blast
  qed
qed

lemma reseed_terminates:
  assumes "\<forall>g. 0 \<le> fst (ru g)" and "ksub \<le> n"
    and "\<forall>g. fst (ru g) * real_of_int (int n - int ksub) < 1"
  shows "counts_ok n nelts \<Longrightarrow> \<forall>k \<in> set ks. k < ksub \<Longrightarrow>
         \<exists>r. MStep_reseed ru ep co d n ks (c, nelts, g) = Some r"
proof (induction ks arbitrary: c nelts g)
  case Nil
  then show ?case by simp
next
  case (Cons k ks)
  have k: "k < ksub" using Cons.prems(2) by simp
  have ks: "\<forall>k \<in> set ks. k < ksub" using Cons.prems(2) by simp
  show ?case
  proof (cases "nelts ! k = 0")
    case False
    then show ?thesis using Cons.IH [OF Cons.prems(1) ks] by simp
  next
    case True
    have "\<exists>ms < ksub. 2 \<le> nelts ! ms"
      using some_count_ge_2 [of nelts n k] Cons.prems(1) assms(2) k True
      by (simp add: counts_ok_def)
    then obtain ms where "ms < ksub" "2 \<le> nelts ! ms" by blast
    from donor_loop_terminates [OF this assms(3)]
    obtain m g1 where dl: "donor_loop ru n nelts 0 g = Some (m, g1)" by blast
    have m: "m < ksub" "2 \<le> nelts ! m"
      using donor_loop_sound [OF dl ksub_pos assms(1,2)] by simp_all
    define nelts1 where "nelts1 = nelts[k := cdiv (nelts ! m) 2]"
    define nelts2 where "nelts2 = nelts1[m := nelts1 ! m - nelts1 ! k]"
    note sp = counts_ok_split [OF Cons.prems(1) k True m, folded nelts1_def, folded nelts2_def]
    from Cons.IH [OF sp(1) ks]
    obtain r where "MStep_reseed ru ep co d n ks (split_centroid ep c co d k m, nelts2, g1) = Some r"
      by blast
    then show ?thesis using True dl by (cases r) (simp add: Let_def nelts1_def nelts2_def)
  qed
qed

section \<open>Counts and termination of the M-step\<close>

lemma add_points_counts:
  "length nelts = ksub \<Longrightarrow> \<forall>i < ksub. 0 \<le> nelts ! i \<Longrightarrow>
   fold (MStep_add_point x0 co codes d) is (x, c, nelts) = (x', c', nelts') \<Longrightarrow>
   length nelts' = ksub \<and> (\<forall>i < ksub. 0 \<le> nelts' ! i)
     \<and> sum_list nelts' = sum_list nelts + int (length is)"
proof (induction "is" arbitrary: x c nelts)
  case Nil
  then show ?case by simp
next
  case (Cons i "is")
  let ?k = "unat (codes ! i)"
  let ?n1 = "nelts[?k := nelts ! ?k + 1]"
  have k: "?k < length nelts" using unat_lt_ksub [of "codes ! i"] Cons.prems(1) by simp
  obtain x1 c1 where step: "MStep_add_point x0 co codes d i (x, c, nelts) = (x1, c1, ?n1)"
    by (simp add: MStep_add_point_def Let_def)
  have len: "length ?n1 = ksub" using Cons.prems(1) by simp
  have nn: "\<forall>j < ksub. 0 \<le> ?n1 ! j"
  proof (intro allI impI)
    fix j assume j: "j < ksub"
    have "0 \<le> nelts ! j" "0 \<le> nelts ! ?k" using Cons.prems(1,2) j k by simp_all
    then show "0 \<le> ?n1 ! j" using k by (cases "j = ?k") simp_all
  qed
  have run: "fold (MStep_add_point x0 co codes d) is (x1, c1, ?n1) = (x', c', nelts')"
    using Cons.prems(3) step by simp
  have "sum_list ?n1 = sum_list nelts + 1" using k by (simp add: sum_list_update_int)
  then show ?case using Cons.IH [OF len nn run] by simp
qed

lemma MStep_sums_counts:
  "MStep_sums x0 c co codes d n = (c', nelts) \<Longrightarrow> counts_ok n nelts"
proof -
  assume a: "MStep_sums x0 c co codes d n = (c', nelts)"
  obtain x1 c1 n1 where f: "fold (MStep_add_point x0 co codes d) [0 ..< n]
      (0, memset_zero c co (d * ksub), replicate ksub 0) = (x1, c1, n1)"
    by (cases "fold (MStep_add_point x0 co codes d) [0 ..< n]
      (0, memset_zero c co (d * ksub), replicate ksub 0)") auto
  then have "n1 = nelts" using a by (simp add: MStep_sums_def Let_def)
  moreover have "length n1 = ksub \<and> (\<forall>i < ksub. 0 \<le> n1 ! i)
     \<and> sum_list n1 = sum_list (replicate ksub (0::int)) + int (length [0 ..< n])"
    by (rule add_points_counts [OF _ _ f]) simp_all
  ultimately show ?thesis by (simp add: counts_ok_def sum_list_replicate)
qed

lemma divide_block_total:
  "z \<noteq> 0 \<Longrightarrow> \<exists>c'. divide_block c cp z js = Some c' \<and> length c' = length c
      \<and> (\<forall>p < length c. c ! p = 0 \<longrightarrow> c' ! p = 0)"
proof (induction js arbitrary: c)
  case Nil
  then show ?case by simp
next
  case (Cons j js)
  let ?c1 = "c[cp + j := c ! (cp + j) / z]"
  obtain c' where c': "divide_block ?c1 cp z js = Some c'" "length c' = length ?c1"
    "\<forall>p < length ?c1. ?c1 ! p = 0 \<longrightarrow> c' ! p = 0"
    using Cons.IH [OF Cons.prems, of ?c1] by blast
  have "?c1 ! p = 0" if "p < length c" "c ! p = 0" for p
    using that by (cases "p = cp + j") simp_all
  then show ?case using c' Cons.prems by (simp add: divide_checked_def)
qed

lemma MStep_means_total:
  "\<exists>cp' c'. MStep_means nelts d ks (cp, c) = Some (cp', c') \<and> length c' = length c
      \<and> (\<forall>p < length c. c ! p = 0 \<longrightarrow> c' ! p = 0)"
proof (induction ks arbitrary: cp c)
  case Nil
  then show ?case by simp
next
  case (Cons k ks)
  show ?case
  proof (cases "real_of_int (nelts ! k) = 0")
    case True
    then show ?thesis using Cons.IH [of "cp + d" c] by simp
  next
    case False
    from divide_block_total [OF False, of c cp "[0 ..< d]"]
    obtain c1 where c1: "divide_block c cp (real_of_int (nelts ! k)) [0 ..< d] = Some c1"
      "length c1 = length c" "\<forall>p < length c. c ! p = 0 \<longrightarrow> c1 ! p = 0" by blast
    from Cons.IH [of "cp + d" c1]
    obtain cp' c' where r: "MStep_means nelts d ks (cp + d, c1) = Some (cp', c')"
      "length c' = length c1" "\<forall>p < length c1. c1 ! p = 0 \<longrightarrow> c' ! p = 0" by blast
    have "MStep_means nelts d (k # ks) (cp, c) = Some (cp', c')"
      using False c1(1) r(1) by (simp add: Let_def)
    then show ?thesis using c1 r by auto
  qed
qed

lemma MStep_locals_counts:
  assumes "\<forall>g. 0 \<le> fst (ru g)" and "ksub \<le> n"
    and "MStep_locals ru ep x0 c co codes d n g = Some (c', nelts', g')"
  shows "counts_ok n nelts' \<and> (\<forall>i < ksub. 1 \<le> nelts' ! i)"
proof -
  obtain c1 nelts where s: "MStep_sums x0 c co codes d n = (c1, nelts)"
    by (cases "MStep_sums x0 c co codes d n")
  obtain cp c2 where m: "MStep_means nelts d [0 ..< ksub] (co, c1) = Some (cp, c2)"
    using MStep_means_total [of nelts d "[0 ..< ksub]" co c1] by blast
  have r: "MStep_reseed ru ep co d n [0 ..< ksub] (c2, nelts, g) = Some (c', nelts', g')"
    using assms(3) s m by (simp add: MStep_locals_def)
  show ?thesis
    using reseed_counts [OF assms(1,2) r MStep_sums_counts [OF s]] by simp
qed

lemma MStep_locals_terminates:
  assumes "\<forall>g. 0 \<le> fst (ru g)" and "ksub \<le> n"
    and "\<forall>g. fst (ru g) * real_of_int (int n - int ksub) < 1"
  shows "\<exists>r. MStep_locals ru ep x0 c co codes d n g = Some r"
proof -
  obtain c1 nelts where s: "MStep_sums x0 c co codes d n = (c1, nelts)"
    by (cases "MStep_sums x0 c co codes d n")
  obtain cp c2 where m: "MStep_means nelts d [0 ..< ksub] (co, c1) = Some (cp, c2)"
    using MStep_means_total [of nelts d "[0 ..< ksub]" co c1] by blast
  obtain r where "MStep_reseed ru ep co d n [0 ..< ksub] (c2, nelts, g) = Some r"
    using reseed_terminates [OF assms MStep_sums_counts [OF s], of "[0 ..< ksub]" ep co d c2 g]
    by auto
  then show ?thesis using s m by (cases r) (simp add: MStep_locals_def)
qed

section \<open>Splitting a centroid\<close>

lemma block_index_neq:
  fixes k m d j j' :: nat
  assumes "k \<noteq> m" "j < d" "j' < d"
  shows "k * d + j \<noteq> m * d + j'"
proof
  assume e: "k * d + j = m * d + j'"
  have "(k * d + j) div d = k" "(m * d + j') div d = m" using assms(2,3) by simp_all
  then show False using e assms(1) by metis
qed

lemma memcpy_length: "length (memcpy dst dsto src srco len) = length dst"
  unfolding memcpy_def by (rule fold_update_length)

lemma memcpy_nth:
  "p < length dst \<Longrightarrow>
   memcpy dst dsto src srco len ! p
     = (if dsto \<le> p \<and> p < dsto + len then src ! (srco + (p - dsto)) else dst ! p)"
  unfolding memcpy_def by (rule fold_update_nth)

lemma perturb_fold:
  fixes c1 :: "real list"
  assumes "\<And>j j'. j < d \<Longrightarrow> j' < d \<Longrightarrow> K + j \<noteq> M + j'"
    and "K + d \<le> length c1" and "M + d \<le> length c1"
  shows "i \<le> d \<Longrightarrow>
    (let c = fold (\<lambda>j c.
                 let sign = (int j mod 2) * 2 - 1;
                     c = c[K + j := c ! (K + j) + real_of_int sign * e];
                     c = c[M + j := c ! (M + j) - real_of_int sign * e]
                 in c) [0 ..< i] c1
     in length c = length c1
      \<and> (\<forall>j < d. c ! (K + j) = (if j < i then c1 ! (K + j) + real_of_int ((int j mod 2) * 2 - 1) * e
                                 else c1 ! (K + j)))
      \<and> (\<forall>j < d. c ! (M + j) = (if j < i then c1 ! (M + j) - real_of_int ((int j mod 2) * 2 - 1) * e
                                 else c1 ! (M + j)))
      \<and> (\<forall>p < length c1. (\<forall>j < d. p \<noteq> K + j \<and> p \<noteq> M + j) \<longrightarrow> c ! p = c1 ! p))"
proof (induction i)
  case 0
  then show ?case by simp
next
  case (Suc i)
  then have i: "i < d" by simp
  define c where "c = fold (\<lambda>j c.
                 let sign = (int j mod 2) * 2 - 1;
                     c = c[K + j := c ! (K + j) + real_of_int sign * e];
                     c = c[M + j := c ! (M + j) - real_of_int sign * e]
                 in c) [0 ..< i] c1"
  have ih: "length c = length c1"
    "\<And>j. j < d \<Longrightarrow> c ! (K + j) = (if j < i then c1 ! (K + j) + real_of_int ((int j mod 2) * 2 - 1) * e
                                 else c1 ! (K + j))"
    "\<And>j. j < d \<Longrightarrow> c ! (M + j) = (if j < i then c1 ! (M + j) - real_of_int ((int j mod 2) * 2 - 1) * e
                                 else c1 ! (M + j))"
    "\<And>p. p < length c1 \<Longrightarrow> (\<forall>j < d. p \<noteq> K + j \<and> p \<noteq> M + j) \<Longrightarrow> c ! p = c1 ! p"
    using Suc.IH i unfolding c_def Let_def by simp_all
  define s where "s = real_of_int ((int i mod 2) * 2 - 1) * e"
  define c' where "c' = (c[K + i := c ! (K + i) + s])[M + i := (c[K + i := c ! (K + i) + s]) ! (M + i) - s]"
  have step: "fold (\<lambda>j c.
                 let sign = (int j mod 2) * 2 - 1;
                     c = c[K + j := c ! (K + j) + real_of_int sign * e];
                     c = c[M + j := c ! (M + j) - real_of_int sign * e]
                 in c) [0 ..< Suc i] c1 = c'"
    by (simp add: c_def c'_def s_def Let_def)
  have Ki: "K + i < length c" and Mi: "M + i < length c" using i assms(2,3) ih(1) by simp_all
  have KM: "K + i \<noteq> M + i" using assms(1) [OF i i] .
  have c'M: "c' ! (M + i) = c ! (M + i) - s" using Mi KM by (simp add: c'_def)
  have c'K: "c' ! (K + i) = c ! (K + i) + s" using Ki KM by (simp add: c'_def)
  have c'o: "c' ! p = c ! p" if "p \<noteq> K + i" "p \<noteq> M + i" for p
    using that by (simp add: c'_def)
  have 1: "length c' = length c1" using ih(1) by (simp add: c'_def)
  have 2: "c' ! (K + j) = (if j < Suc i then c1 ! (K + j) + real_of_int ((int j mod 2) * 2 - 1) * e
                                 else c1 ! (K + j))" if j: "j < d" for j
  proof (cases "j = i")
    case True
    then show ?thesis using c'K ih(2) [OF j] by (simp add: s_def)
  next
    case False
    have "K + j \<noteq> M + i" using assms(1) [OF j i] .
    then have "c' ! (K + j) = c ! (K + j)" using False by (simp add: c'o)
    then show ?thesis using ih(2) [OF j] False by auto
  qed
  have 3: "c' ! (M + j) = (if j < Suc i then c1 ! (M + j) - real_of_int ((int j mod 2) * 2 - 1) * e
                                 else c1 ! (M + j))" if j: "j < d" for j
  proof (cases "j = i")
    case True
    then show ?thesis using c'M ih(3) [OF j] by (simp add: s_def)
  next
    case False
    have "K + i \<noteq> M + j" using assms(1) [OF i j] .
    then have "c' ! (M + j) = c ! (M + j)" using False by (simp add: c'o)
    then show ?thesis using ih(3) [OF j] False by auto
  qed
  have 4: "c' ! p = c1 ! p" if "p < length c1" "\<forall>j < d. p \<noteq> K + j \<and> p \<noteq> M + j" for p
  proof -
    have "p \<noteq> K + i" "p \<noteq> M + i" using that(2) i by auto
    then have "c' ! p = c ! p" by (rule c'o)
    then show ?thesis using ih(4) [OF that] by simp
  qed
  show ?case unfolding Let_def step [unfolded Let_def] using 1 2 3 4 by blast
qed

lemma split_centroid_nth:
  assumes "k \<noteq> m" and "co + k * d + d \<le> length c" and "co + m * d + d \<le> length c"
  shows "length (split_centroid e c co d k m) = length c"
    and "j < d \<Longrightarrow> split_centroid e c co d k m ! (co + k * d + j)
           = c ! (co + m * d + j) + real_of_int ((int j mod 2) * 2 - 1) * e"
    and "j < d \<Longrightarrow> split_centroid e c co d k m ! (co + m * d + j)
           = c ! (co + m * d + j) - real_of_int ((int j mod 2) * 2 - 1) * e"
    and "p < length c \<Longrightarrow> (\<forall>j < d. p \<noteq> co + k * d + j \<and> p \<noteq> co + m * d + j)
           \<Longrightarrow> split_centroid e c co d k m ! p = c ! p"
proof -
  define c1 where "c1 = memcpy c (co + k * d) c (co + m * d) d"
  have len1: "length c1 = length c" by (simp add: c1_def memcpy_length)
  have ne: "co + k * d + j \<noteq> co + m * d + j'" if "j < d" "j' < d" for j j'
    using block_index_neq [OF assms(1) that] by simp
  have c1K: "c1 ! (co + k * d + j) = c ! (co + m * d + j)" if "j < d" for j
    using that assms(2) by (simp add: c1_def memcpy_nth)
  have c1M: "c1 ! (co + m * d + j) = c ! (co + m * d + j)" if "j < d" for j
  proof -
    have "\<not> (co + k * d \<le> co + m * d + j \<and> co + m * d + j < co + k * d + d)"
    proof
      assume a: "co + k * d \<le> co + m * d + j \<and> co + m * d + j < co + k * d + d"
      then have "co + m * d + j = co + k * d + (co + m * d + j - (co + k * d))"
        "co + m * d + j - (co + k * d) < d" by arith+
      then show False using ne [OF _ that] by metis
    qed
    then show ?thesis using that assms(3) by (auto simp add: c1_def memcpy_nth)
  qed
  have c1o: "c1 ! p = c ! p" if "p < length c" "\<forall>j < d. p \<noteq> co + k * d + j" for p
  proof -
    have "\<not> (co + k * d \<le> p \<and> p < co + k * d + d)"
    proof
      assume a: "co + k * d \<le> p \<and> p < co + k * d + d"
      then have "p = co + k * d + (p - (co + k * d))" "p - (co + k * d) < d" by arith+
      then show False using that(2) by metis
    qed
    then show ?thesis using that(1) by (auto simp add: c1_def memcpy_nth)
  qed
  note pf = perturb_fold [of d "co + k * d" "co + m * d" c1 d e, OF ne, unfolded Let_def len1,
      OF _ _ assms(2,3) order_refl]
  have sc: "split_centroid e c co d k m = fold (\<lambda>j c.
                 let sign = (int j mod 2) * 2 - 1;
                     c = c[co + k * d + j := c ! (co + k * d + j) + real_of_int sign * e];
                     c = c[co + m * d + j := c ! (co + m * d + j) - real_of_int sign * e]
                 in c) [0 ..< d] c1"
    by (simp add: split_centroid_def c1_def Let_def)
  show "length (split_centroid e c co d k m) = length c" using pf unfolding sc Let_def by simp
  show "split_centroid e c co d k m ! (co + k * d + j)
           = c ! (co + m * d + j) + real_of_int ((int j mod 2) * 2 - 1) * e" if "j < d"
    using pf that c1K [OF that] unfolding sc Let_def by simp
  show "split_centroid e c co d k m ! (co + m * d + j)
           = c ! (co + m * d + j) - real_of_int ((int j mod 2) * 2 - 1) * e" if "j < d"
    using pf that c1M [OF that] unfolding sc Let_def by simp
  show "split_centroid e c co d k m ! p = c ! p"
    if "p < length c" "\<forall>j < d. p \<noteq> co + k * d + j \<and> p \<noteq> co + m * d + j"
  proof -
    have "split_centroid e c co d k m ! p = c1 ! p"
      using pf that unfolding sc Let_def by simp
    then show ?thesis using c1o that by simp
  qed
qed

section \<open>Sums, counts and untouched centroids\<close>

lemma fold_update_other:
  "\<forall>j \<in> set js. b + j \<noteq> p \<Longrightarrow> fold (\<lambda>j c. c[b + j := f j c]) js c ! p = c ! p"
  by (induction js arbitrary: c) simp_all

lemma fold_update_length_gen:
  "length (fold (\<lambda>j c. c[b + j := f j c]) js c) = length c"
  by (induction js arbitrary: c) simp_all

lemma block_bound:
  fixes k d j :: nat
  assumes "k < K" "j < d"
  shows "k * d + j < d * K"
proof -
  have "k * d + j < (k + 1) * d" using assms(2) by simp
  also have "(k + 1) * d \<le> K * d" using assms(1) by (intro mult_le_mono1) simp
  finally show ?thesis by (simp add: mult.commute)
qed

lemma add_point_zero_blocks:
  assumes "length nelts = ksub" and "\<forall>i < ksub. 0 \<le> nelts ! i"
    and "zero_blocks co d c nelts"
    and "MStep_add_point x0 co codes d i (x, c, nelts) = (x1, c1, n1)"
  shows "zero_blocks co d c1 n1 \<and> length c1 = length c"
proof -
  let ?k = "unat (codes ! i)"
  have k: "?k < ksub" by (rule unat_lt_ksub)
  have n1: "n1 = nelts[?k := nelts ! ?k + 1]"
    and c1: "c1 = fold (\<lambda>j c. c[co + ?k * d + j := c ! (co + ?k * d + j) + x0 ! (x + j)]) [0 ..< d] c"
    using assms(4) by (simp_all add: MStep_add_point_def Let_def)
  have len: "length c1 = length c" unfolding c1 by (rule fold_update_length_gen)
  have "c1 ! (co + k' * d + j) = 0" if k': "k' < ksub" "n1 ! k' = 0" and j: "j < d" for k' j
  proof -
    have "0 \<le> nelts ! ?k" using assms(2) k by simp
    then have "n1 ! ?k \<noteq> 0" using assms(1) k by (simp add: n1)
    then have ne: "k' \<noteq> ?k" using k'(2) by auto
    then have "nelts ! k' = 0" using k'(2) by (simp add: n1)
    then have z: "c ! (co + k' * d + j) = 0" using assms(3) k'(1) j by (simp add: zero_blocks_def)
    have "co + ?k * d + j' \<noteq> co + k' * d + j" if "j' < d" for j'
      using block_index_neq [OF ne [symmetric] that j] by simp
    then have "\<forall>j' \<in> set [0 ..< d]. co + ?k * d + j' \<noteq> co + k' * d + j" by simp
    then have "c1 ! (co + k' * d + j) = c ! (co + k' * d + j)"
      unfolding c1 by (rule fold_update_other)
    then show ?thesis using z by simp
  qed
  then show ?thesis using len by (simp add: zero_blocks_def)
qed

lemma add_points_zero_blocks:
  "length nelts = ksub \<Longrightarrow> \<forall>i < ksub. 0 \<le> nelts ! i \<Longrightarrow> zero_blocks co d c nelts \<Longrightarrow>
   fold (MStep_add_point x0 co codes d) is (x, c, nelts) = (x', c', nelts') \<Longrightarrow>
   zero_blocks co d c' nelts' \<and> length c' = length c"
proof (induction "is" arbitrary: x c nelts)
  case Nil
  then show ?case by simp
next
  case (Cons i "is")
  obtain x1 c1 n1 where step: "MStep_add_point x0 co codes d i (x, c, nelts) = (x1, c1, n1)"
    by (cases "MStep_add_point x0 co codes d i (x, c, nelts)") auto
  have run: "fold (MStep_add_point x0 co codes d) is (x1, c1, n1) = (x', c', nelts')"
    using Cons.prems(4) step by simp
  have one: "fold (MStep_add_point x0 co codes d) [i] (x, c, nelts) = (x1, c1, n1)"
    using step by simp
  note cnt = add_points_counts [OF Cons.prems(1,2) one]
  note zb = add_point_zero_blocks [OF Cons.prems(1,2,3) step]
  from Cons.IH [OF _ _ _ run] cnt zb show ?case by simp
qed

lemma memset_zero_nth:
  "co + len \<le> length c \<Longrightarrow> p < len \<Longrightarrow> memset_zero c co len ! (co + p) = 0"
  unfolding memset_zero_def by (simp add: fold_update_nth)

lemma memset_zero_length: "length (memset_zero c co len) = length c"
  unfolding memset_zero_def by (rule fold_update_length)

lemma MStep_sums_zero_blocks:
  assumes "co + d * ksub \<le> length c" and "MStep_sums x0 c co codes d n = (c1, nelts)"
  shows "zero_blocks co d c1 nelts \<and> length c1 = length c"
proof -
  let ?c0 = "memset_zero c co (d * ksub)"
  obtain x' c' n' where f: "fold (MStep_add_point x0 co codes d) [0 ..< n]
      (0, ?c0, replicate ksub 0) = (x', c', n')"
    by (cases "fold (MStep_add_point x0 co codes d) [0 ..< n] (0, ?c0, replicate ksub 0)") auto
  then have eq: "c' = c1" "n' = nelts" using assms(2) by (simp_all add: MStep_sums_def Let_def)
  have z0: "zero_blocks co d ?c0 (replicate ksub 0)"
    unfolding zero_blocks_def
  proof (intro allI impI)
    fix k j assume "k < ksub" "j < d"
    then have "k * d + j < d * ksub" by (rule block_bound)
    from memset_zero_nth [OF assms(1) this] show "?c0 ! (co + k * d + j) = 0"
      by (simp add: add.assoc)
  qed
  have "zero_blocks co d c' n' \<and> length c' = length ?c0"
    by (rule add_points_zero_blocks [OF _ _ z0 f]) simp_all
  then show ?thesis by (simp add: eq memset_zero_length)
qed

lemma add_points_nelts:
  "snd (snd (fold (MStep_add_point x0 co codes d) is (x, c, nelts)))
     = fold (\<lambda>i nelts. nelts[unat (codes ! i) := nelts ! unat (codes ! i) + 1]) is nelts"
  by (induction "is" arbitrary: x c nelts) (simp_all add: MStep_add_point_def Let_def)

lemma count_fold_length:
  "length (fold (\<lambda>i nelts. nelts[unat (codes ! i) := nelts ! unat (codes ! i) + (1::int)]) is nelts)
     = length nelts"
  by (induction "is" arbitrary: nelts) simp_all

lemma count_fold_nth:
  assumes "length nelts = ksub" and "k < ksub"
  shows "fold (\<lambda>i nelts. nelts[unat (codes ! i) := nelts ! unat (codes ! i) + 1]) [0 ..< n] nelts ! k
     = nelts ! k + int (card {i. i < n \<and> unat (codes ! i) = k})"
proof (induction n)
  case 0
  then show ?case by simp
next
  case (Suc n)
  let ?f = "fold (\<lambda>i nelts. nelts[unat (codes ! i) := nelts ! unat (codes ! i) + 1]) [0 ..< n] nelts"
  have len: "length ?f = ksub" using assms(1) by (simp add: count_fold_length)
  have fin: "finite {i. i < n \<and> unat (codes ! i) = k}" by simp
  show ?case
  proof (cases "unat (codes ! n) = k")
    case True
    have "{i. i < Suc n \<and> unat (codes ! i) = k} = insert n {i. i < n \<and> unat (codes ! i) = k}"
      using True by (auto simp add: less_Suc_eq)
    then have "card {i. i < Suc n \<and> unat (codes ! i) = k} = Suc (card {i. i < n \<and> unat (codes ! i) = k})"
      using fin by simp
    then show ?thesis using Suc True len assms(2) by simp
  next
    case False
    have "{i. i < Suc n \<and> unat (codes ! i) = k} = {i. i < n \<and> unat (codes ! i) = k}"
      using False by (auto simp add: less_Suc_eq)
    then show ?thesis using Suc False by simp
  qed
qed

lemma MStep_sums_nelts:
  assumes "MStep_sums x0 c co codes d n = (c1, nelts)" and "k < ksub"
  shows "nelts ! k = int (card {i. i < n \<and> unat (codes ! i) = k})"
proof -
  have "nelts = snd (snd (fold (MStep_add_point x0 co codes d) [0 ..< n]
      (0, memset_zero c co (d * ksub), replicate ksub 0)))"
    using assms(1) by (simp add: MStep_sums_def Let_def split: prod.splits)
  then show ?thesis
    unfolding add_points_nelts using count_fold_nth [of "replicate ksub 0" k codes n] assms(2)
    by simp
qed


lemma block_end_bound:
  fixes k d :: nat
  assumes "k < ksub" and "co + d * ksub \<le> n"
  shows "co + k * d + d \<le> n"
proof -
  have "(k + 1) * d \<le> ksub * d" using assms(1) by (intro mult_le_mono1) simp
  then show ?thesis using assms(2) by (simp add: mult.commute)
qed

lemma reseed_zero_blocks:
  assumes "\<forall>g. 0 \<le> fst (ru g)" and "ksub \<le> n"
  shows "MStep_reseed ru ep co d n ks (c, nelts, g) = Some (c', nelts', g') \<Longrightarrow>
         counts_ok n nelts \<Longrightarrow> \<forall>k \<in> set ks. k < ksub \<Longrightarrow>
         co + d * ksub \<le> length c \<Longrightarrow> zero_blocks co d c nelts \<Longrightarrow>
         zero_blocks co d c' nelts' \<and> length c' = length c
           \<and> (\<forall>i < ksub. i \<notin> set ks \<longrightarrow> nelts ! i = 0 \<longrightarrow> nelts' ! i = 0)"
proof (induction ks arbitrary: c nelts g)
  case Nil
  then show ?case by simp
next
  case (Cons k ks)
  have k: "k < ksub" using Cons.prems(3) by simp
  have ks: "\<forall>k \<in> set ks. k < ksub" using Cons.prems(3) by simp
  show ?case
  proof (cases "nelts ! k = 0")
    case False
    then have run: "MStep_reseed ru ep co d n ks (c, nelts, g) = Some (c', nelts', g')"
      using Cons.prems(1) by simp
    from Cons.IH [OF run Cons.prems(2) ks Cons.prems(4,5)] show ?thesis by simp
  next
    case True
    then obtain m g1 where dl: "donor_loop ru n nelts 0 g = Some (m, g1)"
      using Cons.prems(1) by (auto split: option.splits)
    have m: "m < ksub" "2 \<le> nelts ! m"
      using donor_loop_sound [OF dl ksub_pos assms] by simp_all
    have km: "k \<noteq> m" using True m(2) by auto
    define nelts1 where "nelts1 = nelts[k := cdiv (nelts ! m) 2]"
    define nelts2 where "nelts2 = nelts1[m := nelts1 ! m - nelts1 ! k]"
    define c1 where "c1 = split_centroid ep c co d k m"
    note sp = counts_ok_split [OF Cons.prems(2) k True m, folded nelts1_def, folded nelts2_def]
    note sc = split_centroid_nth [OF km block_end_bound [OF k Cons.prems(4)]
        block_end_bound [OF m(1) Cons.prems(4)], where e = ep, folded c1_def]
    have run: "MStep_reseed ru ep co d n ks (c1, nelts2, g1) = Some (c', nelts', g')"
      using Cons.prems(1) True dl by (simp add: Let_def nelts1_def nelts2_def c1_def)
    have len: "co + d * ksub \<le> length c1" using Cons.prems(4) sc(1) by simp
    have zb: "zero_blocks co d c1 nelts2"
      unfolding zero_blocks_def
    proof (intro allI impI)
      fix i j assume i: "i < ksub" "nelts2 ! i = 0" and j: "j < d"
      have ik: "i \<noteq> k" and im: "i \<noteq> m" using i(2) sp(2,3) by auto
      then have "nelts ! i = 0" using sp(4) [OF i(1)] i(2) by simp
      then have z: "c ! (co + i * d + j) = 0"
        using Cons.prems(5) i(1) j by (simp add: zero_blocks_def)
      have p: "co + i * d + j < length c"
        using block_end_bound [OF i(1) Cons.prems(4)] j by simp
      have "\<forall>j' < d. co + i * d + j \<noteq> co + k * d + j' \<and> co + i * d + j \<noteq> co + m * d + j'"
        using block_index_neq [OF ik j] block_index_neq [OF im j] by simp
      from sc(4) [OF p this] z show "c1 ! (co + i * d + j) = 0" by simp
    qed
    note ih = Cons.IH [OF run sp(1) ks len zb]
    have "nelts' ! i = 0" if i: "i < ksub" "i \<notin> set (k # ks)" "nelts ! i = 0" for i
    proof -
      have "i \<noteq> k" "i \<noteq> m" using i(2,3) m(2) by auto
      then have "nelts2 ! i = 0" using sp(4) [OF i(1)] i(3) by simp
      then show ?thesis using ih i by simp
    qed
    then show ?thesis using ih sc(1) by simp
  qed
qed

section \<open>Training on exactly 256 points returns\<close>





section \<open>The dot product on a code\<close>




section \<open>Bytes of the persisted state\<close>

lemma uint8_of_int: "uint (word_of_int a :: uint8) = a mod 256"
  by (simp add: uint_word_of_int)

lemma wrap32_id: "INT32_MIN \<le> v \<Longrightarrow> v \<le> INT32_MAX \<Longrightarrow> wrap32 v = v"
  unfolding wrap32_def INT32_MIN_def INT32_MAX_def by simp

lemma wrap32_mod: "wrap32 (v mod 4294967296) = wrap32 v"
  unfolding wrap32_def by (simp add: mod_simps)

lemma bytes_value:
  fixes v :: int
  shows "v mod 256 + 256 * (v div 256 mod 256) + 65536 * (v div 65536 mod 256)
      + 16777216 * (v div 16777216 mod 256) = v mod 4294967296"
proof -
  have a: "v mod 4294967296 = 256 * (v div 256 mod 16777216) + v mod 256"
    using zmod_zmult2_eq [of 16777216 v 256] by simp
  have b: "(v div 256) mod 16777216 = 256 * (v div 256 div 256 mod 65536) + v div 256 mod 256"
    using zmod_zmult2_eq [of 65536 "v div 256" 256] by simp
  have c: "(v div 65536) mod 65536 = 256 * (v div 65536 div 256 mod 256) + v div 65536 mod 256"
    using zmod_zmult2_eq [of 256 "v div 65536" 256] by simp
  have d1: "v div 256 div 256 = v div 65536"
    using zdiv_zmult2_eq [of 256 v 256] by simp
  have d2: "v div 65536 div 256 = v div 16777216"
    using zdiv_zmult2_eq [of 256 v 65536] by simp
  show ?thesis using a b [unfolded d1] c [unfolded d2] by linarith
qed

lemma i32_bytes_nth:
  "i32_bytes v ! 0 = word_of_int v" "i32_bytes v ! 1 = word_of_int (v div 256)"
  "i32_bytes v ! 2 = word_of_int (v div 65536)" "i32_bytes v ! 3 = word_of_int (v div 16777216)"
  unfolding i32_bytes_def by (simp_all add: numeral_2_eq_2 numeral_3_eq_3)

lemma i32_of_bytes_bytes: "i32_of_bytes (i32_bytes v) = wrap32 v"
  unfolding i32_of_bytes_def i32_bytes_nth uint8_of_int bytes_value wrap32_mod ..

lemma i32_bytes_length: "length (i32_bytes v) = 4"
  by (simp add: i32_bytes_def)

section \<open>Reading from a stream\<close>

lemma stream_read_enough:
  assumes "good s" and "buf s = bs @ rest" and "length bs = n"
  shows "stream_read s n = (bs, s\<lparr>buf := rest\<rparr>)"
  using assms by (simp add: stream_read_def)

lemma stream_read_failed: "\<not> good s \<Longrightarrow> stream_read s n = ([], s)"
  by (simp add: stream_read_def)

lemma stream_read_stays_failed: "\<not> good s \<Longrightarrow> \<not> good (snd (stream_read s n))"
  by (simp add: stream_read_def)

lemma stream_read_short:
  "length (buf s) < n \<Longrightarrow> \<not> good (snd (stream_read s n))"
  by (simp add: stream_read_def)

lemma read_i32_ok:
  assumes "good s" and "buf s = i32_bytes v @ rest"
  shows "read_i32 s old = (wrap32 v, s\<lparr>buf := rest\<rparr>)"
  unfolding read_i32_def stream_read_enough [OF assms i32_bytes_length]
  by (simp add: i32_bytes_length i32_of_bytes_bytes)

lemma read_i32_failed:
  assumes "\<not> good s"
  shows "read_i32 s old = (wrap32 old, s)"
  unfolding read_i32_def stream_read_failed [OF assms] by (simp add: i32_of_bytes_bytes)

lemma read_real_ok:
  assumes "good s" and "buf s = enc r @ rest" and "\<forall>r. length (enc r) = w"
  shows "read_real enc dec w s old = (dec (enc r), s\<lparr>buf := rest\<rparr>)"
proof -
  have "stream_read s w = (enc r, s\<lparr>buf := rest\<rparr>)"
    using assms by (intro stream_read_enough) simp_all
  then show ?thesis unfolding read_real_def using assms(3) by simp
qed

lemma read_real_failed:
  assumes "\<not> good s"
  shows "read_real enc dec w s old = (dec (enc old), s)"
  unfolding read_real_def stream_read_failed [OF assms] by simp

lemma load_header_ok:
  assumes "good s"
    and "buf s = i32_bytes a @ i32_bytes b @ i32_bytes c @ i32_bytes d @ rest"
  shows "load_header s q =
     (q\<lparr>dim := wrap32 a, nsubq := wrap32 b, dsub := wrap32 c, lastdsub := wrap32 d\<rparr>,
      s\<lparr>buf := rest\<rparr>)"
proof -
  have 1: "read_i32 s old = (wrap32 a, s\<lparr>buf := i32_bytes b @ i32_bytes c @ i32_bytes d @ rest\<rparr>)"
    for old using assms by (rule read_i32_ok)
  have 2: "read_i32 (s\<lparr>buf := i32_bytes b @ i32_bytes c @ i32_bytes d @ rest\<rparr>) old
      = (wrap32 b, s\<lparr>buf := i32_bytes c @ i32_bytes d @ rest\<rparr>)" for old
    using read_i32_ok [of "s\<lparr>buf := i32_bytes b @ i32_bytes c @ i32_bytes d @ rest\<rparr>" b
        "i32_bytes c @ i32_bytes d @ rest" old] assms(1) by simp
  have 3: "read_i32 (s\<lparr>buf := i32_bytes c @ i32_bytes d @ rest\<rparr>) old
      = (wrap32 c, s\<lparr>buf := i32_bytes d @ rest\<rparr>)" for old
    using read_i32_ok [of "s\<lparr>buf := i32_bytes c @ i32_bytes d @ rest\<rparr>" c
        "i32_bytes d @ rest" old] assms(1) by simp
  have 4: "read_i32 (s\<lparr>buf := i32_bytes d @ rest\<rparr>) old = (wrap32 d, s\<lparr>buf := rest\<rparr>)" for old
    using read_i32_ok [of "s\<lparr>buf := i32_bytes d @ rest\<rparr>" d rest old] assms(1) by simp
  show ?thesis unfolding load_header_def Let_def by (simp add: 1 2 3 4)
qed

lemma append_update_at_length: "(xs @ y # ys)[length xs := v] = xs @ v # ys"
  by (induction xs) simp_all

lemma load_table_prefix:
  assumes "good s" and "\<forall>r. length (enc r) = w" and "length vs = length cs"
  shows "n \<le> length cs \<Longrightarrow>
    fold (\<lambda>i (cs, s). case read_real enc dec w s (cs ! i) of (v, s) \<Rightarrow> (cs[i := v], s))
         [0 ..< n] (cs, s\<lparr>buf := concat (map enc vs) @ rest\<rparr>)
      = (map (\<lambda>r. dec (enc r)) (take n vs) @ drop n cs,
         s\<lparr>buf := concat (map enc (drop n vs)) @ rest\<rparr>)"
proof (induction n)
  case 0
  then show ?case by simp
next
  case (Suc n)
  then have n: "n < length cs" "n < length vs" using assms(3) by simp_all
  let ?pre = "map (\<lambda>r. dec (enc r)) (take n vs)"
  have dv: "drop n vs = vs ! n # drop (Suc n) vs" using n(2) by (simp add: Cons_nth_drop_Suc)
  have dc: "drop n cs = cs ! n # drop (Suc n) cs" using n(1) by (simp add: Cons_nth_drop_Suc)
  have lp: "length ?pre = n" using n(2) by simp
  have rd: "read_real enc dec w (s\<lparr>buf := concat (map enc (drop n vs)) @ rest\<rparr>) old
      = (dec (enc (vs ! n)), s\<lparr>buf := concat (map enc (drop (Suc n) vs)) @ rest\<rparr>)" for old
    using read_real_ok [of "s\<lparr>buf := concat (map enc (drop n vs)) @ rest\<rparr>" "enc"  "vs ! n"
        "concat (map enc (drop (Suc n) vs)) @ rest" w dec old] assms(1,2)
    by (simp add: dv)
  have up: "(?pre @ drop n cs)[n := v] = ?pre @ v # drop (Suc n) cs" for v
    using append_update_at_length [of ?pre "cs ! n" "drop (Suc n) cs" v] lp dc by simp
  have tk: "map (\<lambda>r. dec (enc r)) (take (Suc n) vs) = ?pre @ [dec (enc (vs ! n))]"
    using n(2) by (simp add: take_Suc_conv_app_nth)
  show ?case using Suc n(1) by (simp add: rd up tk)
qed

lemma load_table_ok:
  assumes "good s" and "\<forall>r. length (enc r) = w" and "length vs = length cs"
    and "buf s = concat (map enc vs) @ rest"
  shows "load_table enc dec w s cs = (map (\<lambda>r. dec (enc r)) vs, s\<lparr>buf := rest\<rparr>)"
proof -
  have s: "s = s\<lparr>buf := concat (map enc vs) @ rest\<rparr>" using assms(4) by simp
  have "load_table enc dec w (s\<lparr>buf := concat (map enc vs) @ rest\<rparr>) cs
      = (map (\<lambda>r. dec (enc r)) vs, s\<lparr>buf := rest\<rparr>)"
    unfolding load_table_def
    using load_table_prefix [OF assms(1-3) order_refl, of dec rest] assms(3) by simp
  then show ?thesis using s by simp
qed

lemma load_table_failed:
  assumes "\<not> good s"
  shows "load_table enc dec w s cs = (map (\<lambda>r. dec (enc r)) cs, s)"
proof -
  have "n \<le> length cs \<Longrightarrow>
    fold (\<lambda>i (cs, s). case read_real enc dec w s (cs ! i) of (v, s) \<Rightarrow> (cs[i := v], s))
         [0 ..< n] (cs, s)
      = (map (\<lambda>r. dec (enc r)) (take n cs) @ drop n cs, s)" for n
  proof (induction n)
    case 0
    then show ?case by simp
  next
    case (Suc n)
    then have n: "n < length cs" by simp
    let ?pre = "map (\<lambda>r. dec (enc r)) (take n cs)"
    have dc: "drop n cs = cs ! n # drop (Suc n) cs" using n by (simp add: Cons_nth_drop_Suc)
    have lp: "length ?pre = n" using n by simp
    have at: "(?pre @ drop n cs) ! n = cs ! n" using lp dc by (simp add: nth_append)
    have up: "(?pre @ drop n cs)[n := v] = ?pre @ v # drop (Suc n) cs" for v
      using append_update_at_length [of ?pre "cs ! n" "drop (Suc n) cs" v] lp dc by simp
    have tk: "map (\<lambda>r. dec (enc r)) (take (Suc n) cs) = ?pre @ [dec (enc (cs ! n))]"
      using n by (simp add: take_Suc_conv_app_nth)
    show ?case using Suc n by (simp add: read_real_failed [OF assms] at up tk)
  qed
  from this [of "length cs"] show ?thesis by (simp add: load_table_def)
qed


lemma resize_length: "length (resize xs n) = n"
  by (simp add: resize_def)

lemma save_bytes:
  "save enc q [] = i32_bytes (dim q) @ i32_bytes (nsubq q) @ i32_bytes (dsub q)
      @ i32_bytes (lastdsub q) @ concat (map enc (centroids q)) @ []"
  by (simp add: save_def Let_def)


lemma byte_quantizer_fields:
  "dim byte_quantizer = 1" "nsubq byte_quantizer = 1" "dsub byte_quantizer = 1"
  "lastdsub byte_quantizer = 1" "centroids byte_quantizer = replicate 256 0"
  by (simp_all add: byte_quantizer_def ProductQuantizer_object_def Let_def cdiv_def cmod_def)

lemma byte_quantizer_eq:
  "byte_quantizer\<lparr>dim := 1, nsubq := 1, dsub := 1, lastdsub := 1, centroids := replicate 256 0\<rparr>
     = byte_quantizer"
  by (simp add: byte_quantizer_def ProductQuantizer_object_def Let_def cdiv_def cmod_def)

lemma byte_roundtrip: "byte_dec (byte_enc r) = r"
  by (simp add: byte_enc_def byte_dec_def)

lemma byte_enc_length: "length (byte_enc r) = 1"
  by (simp add: byte_enc_def)

lemma int32_small: "INT32_MIN \<le> 1 \<and> 1 \<le> INT32_MAX"
  by (simp add: INT32_MIN_def INT32_MAX_def)

lemma stream_read_good:
  "good (snd (stream_read s n)) \<Longrightarrow>
     good s \<and> length (buf s) = n + length (buf (snd (stream_read s n)))"
  by (auto simp add: stream_read_def split: if_splits)

lemma read_i32_snd: "snd (read_i32 s old) = snd (stream_read s 4)"
  by (simp add: read_i32_def split: prod.splits)

lemma read_real_snd: "snd (read_real enc dec w s old) = snd (stream_read s w)"
  by (simp add: read_real_def split: prod.splits)

lemma load_header_parts:
  "load_header s q =
     (q\<lparr>dim := fst (read_i32 s (dim q)),
        nsubq := fst (read_i32 (snd (stream_read s 4)) (nsubq q)),
        dsub := fst (read_i32 (snd (stream_read (snd (stream_read s 4)) 4)) (dsub q)),
        lastdsub := fst (read_i32 (snd (stream_read (snd (stream_read (snd (stream_read s 4)) 4)) 4))
                      (lastdsub q))\<rparr>,
      snd (stream_read (snd (stream_read (snd (stream_read (snd (stream_read s 4)) 4)) 4)) 4))"
  unfolding load_header_def Let_def
  by (simp add: split_beta read_i32_snd)

lemma load_header_good:
  assumes "good (snd (load_header s q))"
  shows "length (buf s) = 16 + length (buf (snd (load_header s q)))"
proof -
  let ?s1 = "snd (stream_read s 4)"
  let ?s2 = "snd (stream_read ?s1 4)"
  let ?s3 = "snd (stream_read ?s2 4)"
  let ?s4 = "snd (stream_read ?s3 4)"
  have e: "snd (load_header s q) = ?s4" by (simp add: load_header_parts)
  have 4: "good ?s3 \<and> length (buf ?s3) = 4 + length (buf ?s4)"
    using assms unfolding e by (rule stream_read_good)
  then have 3: "good ?s2 \<and> length (buf ?s2) = 4 + length (buf ?s3)"
    using stream_read_good [of ?s2 4] by simp
  then have 2: "good ?s1 \<and> length (buf ?s1) = 4 + length (buf ?s2)"
    using stream_read_good [of ?s1 4] by simp
  then have 1: "good s \<and> length (buf s) = 4 + length (buf ?s1)"
    using stream_read_good [of s 4] by simp
  show ?thesis unfolding e using 1 2 3 4 by simp
qed

lemma load_table_fold_good:
  "good (snd (fold (\<lambda>i (cs, s). case read_real enc dec w s (cs ! i) of (v, s) \<Rightarrow> (cs[i := v], s))
                  is (cs, s))) \<Longrightarrow>
   length (buf s) = w * length is
     + length (buf (snd (fold (\<lambda>i (cs, s). case read_real enc dec w s (cs ! i) of (v, s) \<Rightarrow> (cs[i := v], s))
                  is (cs, s))))"
proof (induction "is" arbitrary: cs s)
  case Nil
  then show ?case by simp
next
  case (Cons i "is")
  let ?F = "\<lambda>i (cs, s). case read_real enc dec w s (cs ! i) of (v, s) \<Rightarrow> (cs[i := v], s)"
  obtain v s1 where r: "read_real enc dec w s (cs ! i) = (v, s1)"
    by (cases "read_real enc dec w s (cs ! i)")
  have s1: "s1 = snd (stream_read s w)" using r read_real_snd [of enc dec w s "cs ! i"] by simp
  have g: "good (snd (fold ?F is (cs[i := v], s1)))" using Cons.prems r by simp
  from Cons.IH [OF g]
  have a: "length (buf s1) = w * length is + length (buf (snd (fold ?F is (cs[i := v], s1))))" .
  have "good s1"
  proof (rule ccontr)
    assume n: "\<not> good s1"
    have "\<not> good s' \<Longrightarrow> \<not> good (snd (fold ?F js (cs', s')))" for js cs' s'
    proof (induction js arbitrary: cs' s')
      case Nil
      then show ?case by simp
    next
      case (Cons j js)
      obtain v' s'' where r': "read_real enc dec w s' (cs' ! j) = (v', s'')"
        by (cases "read_real enc dec w s' (cs' ! j)")
      then have "s'' = s'" using read_real_failed [OF Cons.prems, of enc dec w "cs' ! j"] by simp
      then show ?case using Cons r' by simp
    qed
    from this [OF n] g show False by simp
  qed
  then have b: "length (buf s) = w + length (buf s1)"
    using stream_read_good [of s w] unfolding s1 by simp
  show ?case using a b r by (simp add: algebra_simps)
qed

lemma load_table_good:
  "good (snd (load_table enc dec w s cs)) \<Longrightarrow>
     length (buf s) = w * length cs + length (buf (snd (load_table enc dec w s cs)))"
  unfolding load_table_def using load_table_fold_good [of enc dec w "[0 ..< length cs]" cs s]
  by simp

section \<open>The reseed pass: counts and the choice of a donor\<close>

lemma counts_okI:
  assumes "length nelts = 256" and "\<forall>v \<in> set nelts. 0 \<le> v" and "sum_list nelts = int n"
  shows "counts_ok n nelts"
  using assms by (simp add: counts_ok_def ksub_def)

text \<open>
  C7. When an M-step on \<open>n \<ge> ksub\<close> points returns, none of the 256 counts it has
  recorded is zero and they add up to \<open>n\<close>. The draws are values in \<open>[0, 1)\<close>.
\<close>

theorem mstep_counts_after_reseed:
  assumes "\<forall>g. 0 \<le> fst (runiform g) \<and> fst (runiform g) < 1"
    and "ksub \<le> n"
    and "MStep_locals runiform epsilon x0 c co codes d n g = Some (c', nelts', g')"
  shows "length nelts' = 256 \<and> (\<forall>k < 256. nelts' ! k \<noteq> 0) \<and> sum_list nelts' = int n"
proof -
  have nonneg: "\<forall>g. 0 \<le> fst (runiform g)" using assms(1) by simp
  have "counts_ok n nelts' \<and> (\<forall>i < ksub. 1 \<le> nelts' ! i)"
    by (rule MStep_locals_counts [OF nonneg assms(2,3)])
  then show ?thesis by (fastforce simp add: counts_ok_def ksub_def)
qed

text \<open>
  An instance that does return: 300 points that all carry code 0, so that 255 clusters
  are reseeded, with every draw 0.
\<close>

theorem mstep_counts_after_reseed_witness:
  "(0 \<le> fst (zero_draws ()) \<and> fst (zero_draws ()) < 1) \<and> ksub \<le> 300
   \<and> (\<exists>c' nelts' g'.
        MStep_locals zero_draws (1 / 10 ^ 7) (replicate 300 0) (replicate 256 0) 0
          (replicate 300 0) 1 300 () = Some (c', nelts', g')
        \<and> length nelts' = 256 \<and> nelts' ! 255 \<noteq> 0 \<and> sum_list nelts' = 300)"
proof -
  have draws: "\<forall>g. 0 \<le> fst (zero_draws g) \<and> fst (zero_draws g) < 1"
    by (simp add: zero_draws_def)
  have n: "ksub \<le> 300" by (simp add: ksub_def)
  have "\<exists>r. MStep_locals zero_draws (1 / 10 ^ 7) (replicate 300 0) (replicate 256 0) 0
          (replicate 300 0) 1 300 () = Some r"
    by (rule MStep_locals_terminates) (simp_all add: zero_draws_def ksub_def)
  then obtain c' nelts' g' where run:
    "MStep_locals zero_draws (1 / 10 ^ 7) (replicate 300 0) (replicate 256 0) 0
          (replicate 300 0) 1 300 () = Some (c', nelts', g')"
    by (metis prod_cases3)
  from mstep_counts_after_reseed [OF draws n run]
  have "length nelts' = 256 \<and> nelts' ! 255 \<noteq> 0 \<and> sum_list nelts' = 300" by simp
  then show ?thesis using draws n run by blast
qed

text \<open>
  C8, as the code has it. In the reseed of an empty cluster, with \<open>n \<ge> ksub\<close> points,
  counts that are not negative and add up to \<open>n\<close>, and draws in \<open>[0, 1)\<close>: some cluster
  has a count of at least 2; if the donor loop exits, the donor is a cluster with a count
  of at least 2; and the loop does exit when \<open>n = ksub\<close>, or when every draw \<open>r\<close> has
  \<open>r * (n - ksub) < 1\<close>. It need not exit for other sequences of draws.
\<close>

theorem donor_loop_exit:
  assumes "\<forall>g. 0 \<le> fst (runiform g) \<and> fst (runiform g) < 1"
    and "ksub \<le> n" and "counts_ok n nelts" and "k < ksub" and "nelts ! k = 0"
  shows "(\<exists>ms < ksub. 2 \<le> nelts ! ms)
    \<and> (\<forall>m g'. donor_loop runiform n nelts 0 g = Some (m, g') \<longrightarrow> m < ksub \<and> 2 \<le> nelts ! m)
    \<and> (n = ksub \<or> (\<forall>g. fst (runiform g) * real_of_int (int n - int ksub) < 1)
         \<longrightarrow> (\<exists>m g'. donor_loop runiform n nelts 0 g = Some (m, g')))"
proof -
  have nonneg: "\<forall>g. 0 \<le> fst (runiform g)" using assms(1) by simp
  have ex: "\<exists>ms < ksub. 2 \<le> nelts ! ms"
    using some_count_ge_2 [of nelts n k] assms(2-5) by (simp add: counts_ok_def)
  have sound: "\<forall>m g'. donor_loop runiform n nelts 0 g = Some (m, g') \<longrightarrow> m < ksub \<and> 2 \<le> nelts ! m"
    using donor_loop_sound [OF _ ksub_pos nonneg assms(2)] by blast
  have "\<exists>m g'. donor_loop runiform n nelts 0 g = Some (m, g')"
    if "n = ksub \<or> (\<forall>g. fst (runiform g) * real_of_int (int n - int ksub) < 1)"
  proof -
    from that have small: "\<forall>g. fst (runiform g) * real_of_int (int n - int ksub) < 1" by auto
    from ex obtain ms where "ms < ksub" "2 \<le> nelts ! ms" by blast
    then show ?thesis using small by (rule donor_loop_terminates)
  qed
  then show ?thesis using ex sound by blast
qed

text \<open>
  An instance: 300 points, counts \<open>46, 0, 1, ..., 1\<close>, every draw 0; the donor is cluster 0.
\<close>

theorem donor_loop_exit_witness:
  "(0 \<le> fst (zero_draws ()) \<and> fst (zero_draws ()) < 1) \<and> ksub \<le> 300
   \<and> counts_ok 300 lopsided_counts \<and> 1 < ksub \<and> lopsided_counts ! 1 = 0
   \<and> fst (zero_draws ()) * real_of_int (int 300 - int ksub) < 1
   \<and> donor_loop zero_draws 300 lopsided_counts 0 () = Some (0, ())
   \<and> 2 \<le> lopsided_counts ! 0"
proof -
  have draws: "\<forall>g. 0 \<le> fst (zero_draws g) \<and> fst (zero_draws g) < 1"
    by (simp add: zero_draws_def)
  have n: "ksub \<le> 300" and k: "1 < ksub" by (simp_all add: ksub_def)
  have ok: "counts_ok 300 lopsided_counts"
    by (rule counts_okI) (simp_all add: lopsided_counts_def sum_list_replicate)
  have z: "lopsided_counts ! 1 = 0" by (simp add: lopsided_counts_def)
  have run: "donor_loop zero_draws 300 lopsided_counts 0 () = Some (0, ())"
    by (subst donor_loop.simps) (simp add: zero_draws_def lopsided_counts_def)
  from donor_loop_exit [OF draws n ok k z, of "()"] run
  have "2 \<le> lopsided_counts ! 0" by blast
  then show ?thesis using draws n k ok z run by (simp add: zero_draws_def)
qed

text \<open>
  C8 as stated fails: with 259 points, counts \<open>0, 3, 3, 1, ..., 1\<close> and every draw \<open>3/4\<close>, the
  test \<open>r * (n - ksub) \<ge> count - 1\<close> is \<open>9/4 \<ge> count - 1\<close>, which holds at every cluster,
  and the loop does not return.
\<close>

theorem donor_loop_runs_forever:
  "(0 \<le> fst (high_draws ()) \<and> fst (high_draws ()) < 1) \<and> ksub \<le> 259
   \<and> counts_ok 259 stuck_counts \<and> stuck_counts ! 0 = 0
   \<and> donor_loop high_draws 259 stuck_counts 0 () = None"
proof -
  have ok: "counts_ok 259 stuck_counts"
    by (rule counts_okI) (simp_all add: stuck_counts_def sum_list_replicate)
  have len: "length stuck_counts = ksub" by (simp add: stuck_counts_def ksub_def)
  have "\<forall>v \<in> set stuck_counts. v \<le> 3" by (simp add: stuck_counts_def)
  then have le: "stuck_counts ! m \<le> 3" if "m < ksub" for m
    using that len nth_mem [of m stuck_counts] by auto
  have "donor_loop high_draws 259 stuck_counts 0 () = None"
  proof (rule donor_loop_diverges [OF ksub_pos], intro allI impI)
    fix m g assume "m < ksub"
    then have "real_of_int (stuck_counts ! m - 1) \<le> 2" using le [of m] by simp
    then show "real_of_int (stuck_counts ! m - 1)
        \<le> fst (high_draws g) * real_of_int (int 259 - int ksub)"
      by (simp add: high_draws_def ksub_def)
  qed
  then show ?thesis using ok by (simp add: high_draws_def ksub_def stuck_counts_def)
qed

section \<open>The reseed pass: the perturbation of the split pair\<close>

lemma sign_parity: "real_of_int ((int j mod 2) * 2 - 1) * e = (if even j then - e else e)"
proof (cases "even j")
  case True
  then have "int j mod 2 = 0" by presburger
  then show ?thesis using True by simp
next
  case False
  then have "int j mod 2 = 1" by presburger
  then show ?thesis using False by simp
qed

text \<open>
  C6, as the code has it. After the donor's centroid \<open>m\<close> has been copied into the
  empty slot \<open>k\<close>, coordinate \<open>j\<close> of both is moved by \<open>epsilon\<close>: for even \<open>j\<close> the new
  centroid goes down and the donor goes up, for odd \<open>j\<close> the new centroid goes up and the
  donor goes down (\<^verbatim>\<open>sign = (j % 2) * 2 - 1\<close> is \<open>-1\<close> for even \<open>j\<close>, and it is added to the
  new centroid). The mean of the two is the donor's coordinate before the split.
\<close>

theorem split_centroid_alternating:
  assumes "k \<noteq> m" and "co + k * d + d \<le> length c" and "co + m * d + d \<le> length c"
    and "j < d" and "c' = split_centroid epsilon c co d k m"
  shows "c' ! (co + k * d + j) = c ! (co + m * d + j) + (if even j then - epsilon else epsilon)
       \<and> c' ! (co + m * d + j) = c ! (co + m * d + j) - (if even j then - epsilon else epsilon)
       \<and> (c' ! (co + k * d + j) + c' ! (co + m * d + j)) / 2 = c ! (co + m * d + j)"
proof -
  note s = split_centroid_nth [OF assms(1-3), where e = epsilon]
  have a: "c' ! (co + k * d + j) = c ! (co + m * d + j) + (if even j then - epsilon else epsilon)"
    unfolding assms(5) s(2) [OF assms(4)] sign_parity ..
  have b: "c' ! (co + m * d + j) = c ! (co + m * d + j) - (if even j then - epsilon else epsilon)"
    unfolding assms(5) s(3) [OF assms(4)] sign_parity ..
  have "(c' ! (co + k * d + j) + c' ! (co + m * d + j)) / 2 = c ! (co + m * d + j)"
    unfolding a b by simp
  then show ?thesis using a b by blast
qed

text \<open>
  An instance: centroids of width 2, the donor \<open>(5, 7)\<close>, \<open>epsilon = 1\<close>, at the odd
  coordinate 1.
\<close>

theorem split_centroid_alternating_witness:
  "(0::nat) \<noteq> 1 \<and> 0 + 0 * 2 + 2 \<le> length [0, 0, 5, 7 :: real]
   \<and> 0 + 1 * 2 + 2 \<le> length [0, 0, 5, 7 :: real] \<and> (1::nat) < 2
   \<and> split_centroid 1 [0, 0, 5, 7] 0 2 0 1 ! 1 = 8
   \<and> split_centroid 1 [0, 0, 5, 7] 0 2 0 1 ! 3 = 6"
proof -
  have h1: "(0::nat) \<noteq> 1" and h2: "0 + 0 * 2 + 2 \<le> length [0, 0, 5, 7 :: real]"
    and h3: "0 + 1 * 2 + 2 \<le> length [0, 0, 5, 7 :: real]" and h4: "(1::nat) < 2"
    by simp_all
  from split_centroid_alternating [OF h1 h2 h3 h4 refl, of 1]
  show ?thesis by (simp add: numeral_3_eq_3)
qed

text \<open>
  C6 as stated fails at an even coordinate: with the donor at 5 and \<open>epsilon = 1\<close>, the
  donor ends at 6 and the new centroid at 4, not the donor at 4 and the new one at 6.
\<close>

theorem split_centroid_even_coordinate:
  "split_centroid 1 [0, 5] 0 1 0 1 = [4, 6]
   \<and> \<not> (split_centroid 1 [0, 5] 0 1 0 1 ! 1 = 5 - 1 \<and> split_centroid 1 [0, 5] 0 1 0 1 ! 0 = 5 + 1)"
proof -
  have "split_centroid 1 [0, 5] 0 1 0 1 = [4, 6]"
    by (simp add: split_centroid_def memcpy_def Let_def)
  then show ?thesis by simp
qed

section \<open>The M-step: the guarded division and empty clusters\<close>

lemma MStep_reseed_append:
  "MStep_reseed ru ep co d n (xs @ ys) s
     = (case MStep_reseed ru ep co d n xs s of
          None \<Rightarrow> None
        | Some s' \<Rightarrow> MStep_reseed ru ep co d n ys s')"
proof (induction xs arbitrary: s)
  case Nil
  then show ?case by simp
next
  case (Cons k xs)
  obtain c nelts g where s: "s = (c, nelts, g)" by (cases s)
  show ?case
  proof (cases "nelts ! k = 0")
    case False
    then show ?thesis unfolding s using Cons [of "(c, nelts, g)"] by simp
  next
    case True
    show ?thesis
    proof (cases "donor_loop ru n nelts 0 g")
      case None
      then show ?thesis unfolding s using True by simp
    next
      case (Some r)
      obtain m g1 where r: "r = (m, g1)" by (cases r)
      show ?thesis unfolding s using True Some r
          Cons [of "(split_centroid ep c co d k m,
            (nelts[k := cdiv (nelts ! m) 2])[m := (nelts[k := cdiv (nelts ! m) 2]) ! m
               - (nelts[k := cdiv (nelts ! m) 2]) ! k], g1)"]
        by (simp add: Let_def)
    qed
  qed
qed

lemma reseed_pass_split:
  assumes "k < ksub"
  shows "[0 ..< ksub] = [0 ..< k] @ [k] @ [Suc k ..< ksub]"
proof -
  have "[0 ..< ksub] = [0 ..< k] @ [k ..< ksub]"
    using upt_add_eq_append [of 0 k "ksub - k"] assms by simp
  also have "[k ..< ksub] = k # [Suc k ..< ksub]" using assms by (rule upt_conv_Cons)
  finally show ?thesis by simp
qed

lemma reseed_at_empty:
  assumes "\<forall>g. 0 \<le> fst (ru g)" and "ksub \<le> n"
    and ok: "counts_ok n nelts3" and k: "k < ksub" "nelts3 ! k = 0"
    and len: "co + d * ksub \<le> length c3"
    and run: "MStep_reseed ru ep co d n [k] (c3, nelts3, g3) = Some (c4, nelts4, g4)"
  shows "\<exists>m. donor_loop ru n nelts3 0 g3 = Some (m, g4) \<and> m < ksub \<and> m \<noteq> k
      \<and> 2 \<le> nelts3 ! m
      \<and> c4 = split_centroid ep c3 co d k m
      \<and> (\<forall>j < d. c4 ! (co + k * d + j)
            = c3 ! (co + m * d + j) + (if even j then - ep else ep))
      \<and> nelts4 ! k = cdiv (nelts3 ! m) 2 \<and> 1 \<le> nelts4 ! k
      \<and> nelts4 ! m = nelts3 ! m - nelts4 ! k"
proof -
  obtain m g1 where dl: "donor_loop ru n nelts3 0 g3 = Some (m, g1)"
    using run k(2) by (auto split: option.splits)
  define nelts1 where "nelts1 = nelts3[k := cdiv (nelts3 ! m) 2]"
  define nelts2 where "nelts2 = nelts1[m := nelts1 ! m - nelts1 ! k]"
  have res: "c4 = split_centroid ep c3 co d k m" "nelts4 = nelts2" "g4 = g1"
    using run k(2) dl by (simp_all add: Let_def nelts1_def nelts2_def)
  have m: "m < ksub" "2 \<le> nelts3 ! m"
    using donor_loop_sound [OF dl ksub_pos assms(1,2)] by simp_all
  have km: "k \<noteq> m" using k(2) m(2) by auto
  have l3: "length nelts3 = ksub" using ok by (simp add: counts_ok_def)
  note sp = counts_ok_split [OF ok k m, folded nelts1_def, folded nelts2_def]
  have nk: "nelts2 ! k = cdiv (nelts3 ! m) 2"
    using km k(1) l3 by (simp add: nelts2_def nelts1_def)
  have nm: "nelts2 ! m = nelts3 ! m - nelts2 ! k"
    using km k(1) m(1) l3 by (simp add: nelts2_def nelts1_def)
  have blk: "c4 ! (co + k * d + j) = c3 ! (co + m * d + j) + (if even j then - ep else ep)"
    if "j < d" for j
    using split_centroid_nth(2) [OF km block_end_bound [OF k(1) len]
        block_end_bound [OF m(1) len] that, where e = ep]
    unfolding sign_parity res(1) .
  have 1: "donor_loop ru n nelts3 0 g3 = Some (m, g4)" using dl res(3) by simp
  have 2: "m \<noteq> k" using km by simp
  have 3: "\<forall>j < d. c4 ! (co + k * d + j)
            = c3 ! (co + m * d + j) + (if even j then - ep else ep)" using blk by simp
  have 4: "nelts4 ! k = cdiv (nelts3 ! m) 2" using nk res(2) by simp
  have 5: "1 \<le> nelts4 ! k" using sp(2) res(2) by simp
  have 6: "nelts4 ! m = nelts3 ! m - nelts4 ! k" using nm res(2) by simp
  show ?thesis by (rule exI [of _ m]) (intro conjI 1 m(1) 2 m(2) res(1) 3 4 5 6)
qed

text \<open>
  C10. In an M-step, the pass that divides the sums by the counts never divides by zero,
  whatever the counts are. The count of a cluster is the number of points that carry its
  code, and after the sums and the means the centroid of a cluster \<open>k\<close> without points is
  still the zeros that the clearing of the buffer left there. It stays so, and the count
  stays zero, while the reseed pass handles the clusters before \<open>k\<close>. The reseed pass
  over all clusters is that run before \<open>k\<close>, then its step at \<open>k\<close>, then the rest. The
  step at \<open>k\<close>, when it returns, has found a donor \<open>m\<close> other than \<open>k\<close>, with at least two
  points, and has overwritten the zero centroid of \<open>k\<close> with the donor's centroid moved
  by \<open>epsilon\<close> (down in the even coordinates, up in the odd ones); the count of \<open>k\<close> is
  then half the donor's, at least 1, and the donor keeps the rest.
\<close>

theorem mstep_means_guarded:
  assumes "co + d * ksub \<le> length c"
    and "MStep_sums x0 c co codes d n = (c1, nelts)"
  shows "(\<forall>ks cp b. MStep_means nelts d ks (cp, b) \<noteq> None)
    \<and> (\<forall>k < ksub. nelts ! k = int (card {i. i < n \<and> unat (codes ! i) = k}))
    \<and> (\<exists>cp c2. MStep_means nelts d [0 ..< ksub] (co, c1) = Some (cp, c2)
          \<and> zero_blocks co d c2 nelts
          \<and> (\<forall>runiform epsilon g k c3 nelts3 g3.
                (\<forall>g. 0 \<le> fst (runiform g)) \<and> ksub \<le> n \<and> k < ksub \<and> nelts ! k = 0
                \<and> MStep_reseed runiform epsilon co d n [0 ..< k] (c2, nelts, g) = Some (c3, nelts3, g3)
                \<longrightarrow> nelts3 ! k = 0 \<and> (\<forall>j < d. c3 ! (co + k * d + j) = 0)
                    \<and> (\<forall>m < ksub. m \<noteq> k \<longrightarrow> (\<forall>j < d.
                          split_centroid epsilon c3 co d k m ! (co + k * d + j)
                            = c3 ! (co + m * d + j) + (if even j then - epsilon else epsilon)))
                    \<and> MStep_reseed runiform epsilon co d n [0 ..< ksub] (c2, nelts, g)
                        = (case MStep_reseed runiform epsilon co d n [k] (c3, nelts3, g3) of
                             None \<Rightarrow> None
                           | Some s \<Rightarrow> MStep_reseed runiform epsilon co d n [Suc k ..< ksub] s)
                    \<and> (\<forall>c4 nelts4 g4.
                          MStep_reseed runiform epsilon co d n [k] (c3, nelts3, g3)
                            = Some (c4, nelts4, g4)
                          \<longrightarrow> (\<exists>m. donor_loop runiform n nelts3 0 g3 = Some (m, g4)
                                \<and> m < ksub \<and> m \<noteq> k \<and> 2 \<le> nelts3 ! m
                                \<and> c4 = split_centroid epsilon c3 co d k m
                                \<and> (\<forall>j < d. c4 ! (co + k * d + j)
                                      = c3 ! (co + m * d + j)
                                        + (if even j then - epsilon else epsilon))
                                \<and> nelts4 ! k = cdiv (nelts3 ! m) 2 \<and> 1 \<le> nelts4 ! k
                                \<and> nelts4 ! m = nelts3 ! m - nelts4 ! k))))"
proof -
  have a: "\<forall>ks cp b. MStep_means nelts d ks (cp, b) \<noteq> None"
  proof (intro allI)
    fix ks cp b
    from MStep_means_total [of nelts d ks cp b] show "MStep_means nelts d ks (cp, b) \<noteq> None"
      by auto
  qed
  have b: "\<forall>k < ksub. nelts ! k = int (card {i. i < n \<and> unat (codes ! i) = k})"
    using MStep_sums_nelts [OF assms(2)] by blast
  note z1 = MStep_sums_zero_blocks [OF assms]
  note ok = MStep_sums_counts [OF assms(2)]
  obtain cp c2 where m: "MStep_means nelts d [0 ..< ksub] (co, c1) = Some (cp, c2)"
    and len2: "length c2 = length c1"
    and keep: "\<forall>p < length c1. c1 ! p = 0 \<longrightarrow> c2 ! p = 0"
    using MStep_means_total [of nelts d "[0 ..< ksub]" co c1] by blast
  have len: "co + d * ksub \<le> length c2" using assms(1) z1 len2 by simp
  have z2: "zero_blocks co d c2 nelts"
    unfolding zero_blocks_def
  proof (intro allI impI)
    fix k j assume k: "k < ksub" "nelts ! k = 0" and j: "j < d"
    have "co + k * d + d \<le> length c1" using block_end_bound [OF k(1)] assms(1) z1 by simp
    then have p: "co + k * d + j < length c1" using j by simp
    have "c1 ! (co + k * d + j) = 0" using z1 k j by (simp add: zero_blocks_def)
    then show "c2 ! (co + k * d + j) = 0" using keep p by simp
  qed
  have r: "nelts3 ! k = 0 \<and> (\<forall>j < d. c3 ! (co + k * d + j) = 0)
      \<and> (\<forall>m < ksub. m \<noteq> k \<longrightarrow> (\<forall>j < d.
            split_centroid ep c3 co d k m ! (co + k * d + j)
              = c3 ! (co + m * d + j) + (if even j then - ep else ep)))
      \<and> MStep_reseed ru ep co d n [0 ..< ksub] (c2, nelts, g)
          = (case MStep_reseed ru ep co d n [k] (c3, nelts3, g3) of
               None \<Rightarrow> None
             | Some s \<Rightarrow> MStep_reseed ru ep co d n [Suc k ..< ksub] s)
      \<and> (\<forall>c4 nelts4 g4.
            MStep_reseed ru ep co d n [k] (c3, nelts3, g3) = Some (c4, nelts4, g4)
            \<longrightarrow> (\<exists>m. donor_loop ru n nelts3 0 g3 = Some (m, g4)
                  \<and> m < ksub \<and> m \<noteq> k \<and> 2 \<le> nelts3 ! m
                  \<and> c4 = split_centroid ep c3 co d k m
                  \<and> (\<forall>j < d. c4 ! (co + k * d + j)
                        = c3 ! (co + m * d + j) + (if even j then - ep else ep))
                  \<and> nelts4 ! k = cdiv (nelts3 ! m) 2 \<and> 1 \<le> nelts4 ! k
                  \<and> nelts4 ! m = nelts3 ! m - nelts4 ! k))"
    if h: "\<forall>g. 0 \<le> fst (ru g)" "ksub \<le> n" "k < ksub" "nelts ! k = 0"
      "MStep_reseed ru ep co d n [0 ..< k] (c2, nelts, g) = Some (c3, nelts3, g3)"
    for ru :: "'a \<Rightarrow> real \<times> 'a" and ep g k c3 nelts3 g3
  proof -
    have ks: "\<forall>i \<in> set [0 ..< k]. i < ksub" using h(3) by simp
    note rz = reseed_zero_blocks [OF h(1,2,5) ok ks len z2]
    have n3: "nelts3 ! k = 0" using rz h(3,4) by simp
    then have zk: "\<forall>j < d. c3 ! (co + k * d + j) = 0"
      using rz h(3) by (simp add: zero_blocks_def)
    have len3: "co + d * ksub \<le> length c3" using rz len by simp
    have ok3: "counts_ok n nelts3"
      using reseed_counts [OF h(1,2,5) ok ks] by simp
    have "split_centroid ep c3 co d k m ! (co + k * d + j)
              = c3 ! (co + m * d + j) + (if even j then - ep else ep)"
      if "m < ksub" "m \<noteq> k" "j < d" for m j
      using split_centroid_nth(2) [OF that(2) [symmetric] block_end_bound [OF h(3) len3]
          block_end_bound [OF that(1) len3] that(3), where e = ep]
      unfolding sign_parity .
    then have sc: "\<forall>m < ksub. m \<noteq> k \<longrightarrow> (\<forall>j < d.
            split_centroid ep c3 co d k m ! (co + k * d + j)
              = c3 ! (co + m * d + j) + (if even j then - ep else ep))" by simp
    have "MStep_reseed ru ep co d n ([0 ..< k] @ [k] @ [Suc k ..< ksub]) (c2, nelts, g)
        = (case MStep_reseed ru ep co d n [k] (c3, nelts3, g3) of
               None \<Rightarrow> None
             | Some s \<Rightarrow> MStep_reseed ru ep co d n [Suc k ..< ksub] s)"
      unfolding MStep_reseed_append [of ru ep co d n "[0 ..< k]"] h(5)
      unfolding MStep_reseed_append [of ru ep co d n "[k]"] by simp
    then have pass: "MStep_reseed ru ep co d n [0 ..< ksub] (c2, nelts, g)
          = (case MStep_reseed ru ep co d n [k] (c3, nelts3, g3) of
               None \<Rightarrow> None
             | Some s \<Rightarrow> MStep_reseed ru ep co d n [Suc k ..< ksub] s)"
      unfolding reseed_pass_split [OF h(3), symmetric] .
    have step: "\<forall>c4 nelts4 g4.
            MStep_reseed ru ep co d n [k] (c3, nelts3, g3) = Some (c4, nelts4, g4)
            \<longrightarrow> (\<exists>m. donor_loop ru n nelts3 0 g3 = Some (m, g4)
                  \<and> m < ksub \<and> m \<noteq> k \<and> 2 \<le> nelts3 ! m
                  \<and> c4 = split_centroid ep c3 co d k m
                  \<and> (\<forall>j < d. c4 ! (co + k * d + j)
                        = c3 ! (co + m * d + j) + (if even j then - ep else ep))
                  \<and> nelts4 ! k = cdiv (nelts3 ! m) 2 \<and> 1 \<le> nelts4 ! k
                  \<and> nelts4 ! m = nelts3 ! m - nelts4 ! k)"
      by (intro allI impI) (rule reseed_at_empty [OF h(1,2) ok3 h(3) n3 len3])
    show ?thesis by (intro conjI n3 zk sc pass step)
  qed
  have r': "\<forall>(runiform :: 'a \<Rightarrow> real \<times> 'a) epsilon g k c3 nelts3 g3.
                (\<forall>g. 0 \<le> fst (runiform g)) \<and> ksub \<le> n \<and> k < ksub \<and> nelts ! k = 0
                \<and> MStep_reseed runiform epsilon co d n [0 ..< k] (c2, nelts, g) = Some (c3, nelts3, g3)
                \<longrightarrow> nelts3 ! k = 0 \<and> (\<forall>j < d. c3 ! (co + k * d + j) = 0)
                    \<and> (\<forall>m < ksub. m \<noteq> k \<longrightarrow> (\<forall>j < d.
                          split_centroid epsilon c3 co d k m ! (co + k * d + j)
                            = c3 ! (co + m * d + j) + (if even j then - epsilon else epsilon)))
                    \<and> MStep_reseed runiform epsilon co d n [0 ..< ksub] (c2, nelts, g)
                        = (case MStep_reseed runiform epsilon co d n [k] (c3, nelts3, g3) of
                             None \<Rightarrow> None
                           | Some s \<Rightarrow> MStep_reseed runiform epsilon co d n [Suc k ..< ksub] s)
                    \<and> (\<forall>c4 nelts4 g4.
                          MStep_reseed runiform epsilon co d n [k] (c3, nelts3, g3)
                            = Some (c4, nelts4, g4)
                          \<longrightarrow> (\<exists>m. donor_loop runiform n nelts3 0 g3 = Some (m, g4)
                                \<and> m < ksub \<and> m \<noteq> k \<and> 2 \<le> nelts3 ! m
                                \<and> c4 = split_centroid epsilon c3 co d k m
                                \<and> (\<forall>j < d. c4 ! (co + k * d + j)
                                      = c3 ! (co + m * d + j)
                                        + (if even j then - epsilon else epsilon))
                                \<and> nelts4 ! k = cdiv (nelts3 ! m) 2 \<and> 1 \<le> nelts4 ! k
                                \<and> nelts4 ! m = nelts3 ! m - nelts4 ! k))"
  proof (intro allI impI, elim conjE)
    fix runiform :: "'a \<Rightarrow> real \<times> 'a" and epsilon g k c3 nelts3 g3
    assume h: "\<forall>g. 0 \<le> fst (runiform g)" "ksub \<le> n" "k < ksub" "nelts ! k = 0"
      "MStep_reseed runiform epsilon co d n [0 ..< k] (c2, nelts, g) = Some (c3, nelts3, g3)"
    show "nelts3 ! k = 0 \<and> (\<forall>j < d. c3 ! (co + k * d + j) = 0)
                    \<and> (\<forall>m < ksub. m \<noteq> k \<longrightarrow> (\<forall>j < d.
                          split_centroid epsilon c3 co d k m ! (co + k * d + j)
                            = c3 ! (co + m * d + j) + (if even j then - epsilon else epsilon)))
                    \<and> MStep_reseed runiform epsilon co d n [0 ..< ksub] (c2, nelts, g)
                        = (case MStep_reseed runiform epsilon co d n [k] (c3, nelts3, g3) of
                             None \<Rightarrow> None
                           | Some s \<Rightarrow> MStep_reseed runiform epsilon co d n [Suc k ..< ksub] s)
                    \<and> (\<forall>c4 nelts4 g4.
                          MStep_reseed runiform epsilon co d n [k] (c3, nelts3, g3)
                            = Some (c4, nelts4, g4)
                          \<longrightarrow> (\<exists>m. donor_loop runiform n nelts3 0 g3 = Some (m, g4)
                                \<and> m < ksub \<and> m \<noteq> k \<and> 2 \<le> nelts3 ! m
                                \<and> c4 = split_centroid epsilon c3 co d k m
                                \<and> (\<forall>j < d. c4 ! (co + k * d + j)
                                      = c3 ! (co + m * d + j)
                                        + (if even j then - epsilon else epsilon))
                                \<and> nelts4 ! k = cdiv (nelts3 ! m) 2 \<and> 1 \<le> nelts4 ! k
                                \<and> nelts4 ! m = nelts3 ! m - nelts4 ! k))"
      by (rule r [OF h])
  qed
  show ?thesis
    by (intro conjI a b exI [of _ cp] exI [of _ c2] m z2 r')
qed


text \<open>
  An instance: 256 points that all carry code 0 and a buffer that holds sevens; cluster 1
  has no points and its centroid is zero after the means. The reseed pass leaves cluster
  0 alone and at cluster 1 takes cluster 0 as the donor: the centroid of cluster 1
  becomes that of cluster 0 less \<open>epsilon\<close>, with half of the 256 points.
\<close>

theorem mstep_means_guarded_witness:
  "0 + 1 * ksub \<le> length (replicate 256 (7 :: real))
   \<and> (\<exists>c1 nelts. MStep_sums (replicate 256 1) (replicate 256 7) 0 (replicate 256 0) 1 256 = (c1, nelts)
        \<and> nelts ! 1 = 0
        \<and> (\<exists>cp c2. MStep_means nelts 1 [0 ..< ksub] (0, c1) = Some (cp, c2) \<and> c2 ! 1 = 0
              \<and> (\<exists>c4 nelts4.
                    MStep_reseed zero_draws (1 / 10 ^ 7) 0 1 256 [0 ..< 1] (c2, nelts, ())
                      = Some (c2, nelts, ())
                    \<and> MStep_reseed zero_draws (1 / 10 ^ 7) 0 1 256 [1] (c2, nelts, ())
                      = Some (c4, nelts4, ())
                    \<and> c4 ! 1 = c2 ! 0 - 1 / 10 ^ 7 \<and> nelts4 ! 1 = 128)))"
proof -
  have len: "0 + 1 * ksub \<le> length (replicate 256 (7 :: real))" by (simp add: ksub_def)
  obtain c1 nelts where s:
    "MStep_sums (replicate 256 1) (replicate 256 7) 0 (replicate 256 0) 1 256 = (c1, nelts)"
    by (cases "MStep_sums (replicate 256 1) (replicate 256 7) 0 (replicate 256 0) 1 256")
  note t = mstep_means_guarded [OF len s]
  have k0: "0 < ksub" and k1: "1 < ksub" and kn: "ksub \<le> 256" by (simp_all add: ksub_def)
  have e: "{i. i < 256 \<and> unat (replicate 256 (0 :: uint8) ! i) = 1} = {}" by auto
  have e0: "{i. i < 256 \<and> unat (replicate 256 (0 :: uint8) ! i) = 0} = {0 ..< 256}" by auto
  note counts = t [THEN conjunct2, THEN conjunct1, rule_format, OF k1]
  note counts0 = t [THEN conjunct2, THEN conjunct1, rule_format, OF k0]
  have n1: "nelts ! 1 = 0" using counts unfolding e by simp
  have n0: "nelts ! 0 = 256" using counts0 unfolding e0 by simp
  from t [THEN conjunct2, THEN conjunct2]
  obtain cp c2 where m: "MStep_means nelts 1 [0 ..< ksub] (0, c1) = Some (cp, c2)"
    and z: "zero_blocks 0 1 c2 nelts"
    and cl: "\<forall>runiform epsilon g k c3 nelts3 g3.
                (\<forall>g :: unit. 0 \<le> fst (runiform g)) \<and> ksub \<le> 256 \<and> k < ksub \<and> nelts ! k = 0
                \<and> MStep_reseed runiform epsilon 0 1 256 [0 ..< k] (c2, nelts, g) = Some (c3, nelts3, g3)
                \<longrightarrow> nelts3 ! k = 0 \<and> (\<forall>j < 1. c3 ! (0 + k * 1 + j) = 0)
                    \<and> (\<forall>m < ksub. m \<noteq> k \<longrightarrow> (\<forall>j < 1.
                          split_centroid epsilon c3 0 1 k m ! (0 + k * 1 + j)
                            = c3 ! (0 + m * 1 + j) + (if even j then - epsilon else epsilon)))
                    \<and> MStep_reseed runiform epsilon 0 1 256 [0 ..< ksub] (c2, nelts, g)
                        = (case MStep_reseed runiform epsilon 0 1 256 [k] (c3, nelts3, g3) of
                             None \<Rightarrow> None
                           | Some s \<Rightarrow> MStep_reseed runiform epsilon 0 1 256 [Suc k ..< ksub] s)
                    \<and> (\<forall>c4 nelts4 g4.
                          MStep_reseed runiform epsilon 0 1 256 [k] (c3, nelts3, g3)
                            = Some (c4, nelts4, g4)
                          \<longrightarrow> (\<exists>m. donor_loop runiform 256 nelts3 0 g3 = Some (m, g4)
                                \<and> m < ksub \<and> m \<noteq> k \<and> 2 \<le> nelts3 ! m
                                \<and> c4 = split_centroid epsilon c3 0 1 k m
                                \<and> (\<forall>j < 1. c4 ! (0 + k * 1 + j)
                                      = c3 ! (0 + m * 1 + j)
                                        + (if even j then - epsilon else epsilon))
                                \<and> nelts4 ! k = cdiv (nelts3 ! m) 2 \<and> 1 \<le> nelts4 ! k
                                \<and> nelts4 ! m = nelts3 ! m - nelts4 ! k))"
    by (elim exE conjE)
  have "c2 ! (0 + 1 * 1 + 0) = 0"
    using z [unfolded zero_blocks_def, rule_format, OF k1 n1, of 0] by simp
  then have c21: "c2 ! 1 = 0" by simp
  have draws: "\<forall>g. 0 \<le> fst (zero_draws g)" by (simp add: zero_draws_def)
  have pre: "MStep_reseed zero_draws (1 / 10 ^ 7) 0 1 256 [0 ..< 1] (c2, nelts, ())
      = Some (c2, nelts, ())"
    using n0 by simp
  have dl: "donor_loop zero_draws 256 nelts 0 () = Some (0, ())"
    by (subst donor_loop.simps) (simp add: zero_draws_def ksub_def n0)
  define c4 where "c4 = split_centroid (1 / 10 ^ 7) c2 0 1 1 0"
  define nelts4 where "nelts4 = (nelts[1 := cdiv (nelts ! 0) 2])
      [0 := (nelts[1 := cdiv (nelts ! 0) 2]) ! 0 - (nelts[1 := cdiv (nelts ! 0) 2]) ! 1]"
  have step: "MStep_reseed zero_draws (1 / 10 ^ 7) 0 1 256 [1] (c2, nelts, ())
      = Some (c4, nelts4, ())"
    using n1 dl by (simp add: Let_def c4_def nelts4_def)
  have prem: "(\<forall>g. 0 \<le> fst (zero_draws g)) \<and> ksub \<le> 256 \<and> 1 < ksub \<and> nelts ! 1 = 0
      \<and> MStep_reseed zero_draws (1 / 10 ^ 7) 0 1 256 [0 ..< 1] (c2, nelts, ())
          = Some (c2, nelts, ())"
    by (intro conjI draws kn k1 n1 pre)
  note big = cl [rule_format, OF prem]
  from big [THEN conjunct2, THEN conjunct2, THEN conjunct2, THEN conjunct2, rule_format, OF step]
  obtain d where d: "donor_loop zero_draws 256 nelts 0 () = Some (d, ())"
    and blk: "\<forall>j < 1. c4 ! (0 + 1 * 1 + j)
        = c2 ! (0 + d * 1 + j) + (if even j then - (1 / 10 ^ 7) else 1 / 10 ^ 7)"
    and cnt: "nelts4 ! 1 = cdiv (nelts ! d) 2"
    by (elim exE conjE)
  have d0: "d = 0" using d dl by simp
  have c41: "c4 ! 1 = c2 ! 0 - 1 / 10 ^ 7" using blk [rule_format, of 0] d0 by simp
  have n41: "nelts4 ! 1 = 128" using cnt d0 n0 by (simp add: cdiv_def)
  have inner: "\<exists>c4 nelts4.
        MStep_reseed zero_draws (1 / 10 ^ 7) 0 1 256 [0 ..< 1] (c2, nelts, ())
          = Some (c2, nelts, ())
        \<and> MStep_reseed zero_draws (1 / 10 ^ 7) 0 1 256 [1] (c2, nelts, ())
          = Some (c4, nelts4, ())
        \<and> c4 ! 1 = c2 ! 0 - 1 / 10 ^ 7 \<and> nelts4 ! 1 = 128"
    by (intro exI [of _ c4] exI [of _ nelts4] conjI pre step c41 n41)
  show ?thesis
    by (intro conjI len exI [of _ c1] exI [of _ nelts] exI [of _ cp] exI [of _ c2]
      s n1 m c21 inner)
qed

section \<open>Training: the size check\<close>





section \<open>Persistence: save, then load\<close>

text \<open>
  C4. \<open>save\<close> followed by \<open>load\<close> into any instance \<open>q2\<close> (the same or another one) gives
  \<open>q2\<close> the members \<open>dim\<close>, \<open>nsubq\<close>, \<open>dsub\<close>, \<open>lastdsub\<close> and the table of the saved
  quantizer, scalar for scalar, and consumes the stream exactly. The generator and the
  training constants of \<open>q2\<close> are what they were, and the bytes written do not depend on
  those of the saved quantizer. The saved quantizer is as the constructor makes them: its
  members are \<^verbatim>\<open>int32_t\<close> values, and its table has \<open>dim * ksub\<close> scalars, a size that is
  itself an \<^verbatim>\<open>int32_t\<close>. Every scalar takes \<open>w\<close> bytes, and the bytes of a scalar of the table
  read back as that scalar.
\<close>

theorem save_load_roundtrip:
  fixes q :: "('r::zero, 'g) quantizer" and q2 :: "('r, 'h) quantizer"
  assumes "INT32_MIN \<le> dim q \<and> dim q \<le> INT32_MAX"
    and "INT32_MIN \<le> nsubq q \<and> nsubq q \<le> INT32_MAX"
    and "INT32_MIN \<le> dsub q \<and> dsub q \<le> INT32_MAX"
    and "INT32_MIN \<le> lastdsub q \<and> lastdsub q \<le> INT32_MAX"
    and "0 \<le> dim q \<and> dim q * int ksub \<le> INT32_MAX"
    and "length (centroids q) = nat (dim q * int ksub)"
    and "\<forall>r. length (enc r) = w"
    and "\<forall>r \<in> set (centroids q). dec (enc r) = r"
  shows "load enc dec w \<lparr>buf = save enc q [], good = True\<rparr> q2
       = (Inr (q2\<lparr>dim := dim q, nsubq := nsubq q, dsub := dsub q, lastdsub := lastdsub q,
                    centroids := centroids q\<rparr>),
          \<lparr>buf = [], good = True\<rparr>)
    \<and> save enc (q\<lparr>rng := g, niter := ni, eps := e, max_points := mp\<rparr>) [] = save enc q []"
proof -
  let ?s = "\<lparr>buf = save enc q [], good = True\<rparr>"
  let ?rest = "concat (map enc (centroids q)) @ []"
  let ?q3 = "q2\<lparr>dim := dim q, nsubq := nsubq q, dsub := dsub q, lastdsub := lastdsub q\<rparr>"
  have w: "wrap32 (dim q) = dim q" "wrap32 (nsubq q) = nsubq q" "wrap32 (dsub q) = dsub q"
    "wrap32 (lastdsub q) = lastdsub q"
    using assms(1-4) by (simp_all add: wrap32_id)
  have hd: "load_header ?s q2 = (?q3, \<lparr>buf = ?rest, good = True\<rparr>)"
    using load_header_ok [of ?s "dim q" "nsubq q" "dsub q" "lastdsub q" ?rest q2]
    by (simp add: save_bytes w)
  have nn: "0 \<le> dim q * int ksub" using assms(5) by simp
  then have "INT32_MIN \<le> dim q * int ksub" by (simp add: INT32_MIN_def)
  then have ws: "wrap32 (dim q * int ksub) = dim q * int ksub"
    using assms(5) by (simp add: wrap32_id)
  have size: "\<not> wrap32 (dim q * int ksub) < 0" unfolding ws using nn by simp
  let ?cs = "resize (centroids q2) (nat (dim q * int ksub))"
  have len: "length (centroids q) = length ?cs" using assms(6) by (simp add: resize_length)
  have "map (\<lambda>r. dec (enc r)) (centroids q) = centroids q"
    using assms(8) by (simp add: map_idI)
  then have tb: "load_table enc dec w \<lparr>buf = ?rest, good = True\<rparr> ?cs
      = (centroids q, \<lparr>buf = [], good = True\<rparr>)"
    using load_table_ok [of "\<lparr>buf = ?rest, good = True\<rparr>" enc w "centroids q" ?cs "[]" dec]
      assms(7) len by simp
  have "load enc dec w ?s q2 = (Inr (?q3\<lparr>centroids := centroids q\<rparr>), \<lparr>buf = [], good = True\<rparr>)"
    unfolding load_def hd using size tb by (simp add: Let_def ws)
  moreover have "save enc (q\<lparr>rng := g, niter := ni, eps := e, max_points := mp\<rparr>) [] = save enc q []"
    by (simp add: save_def)
  ultimately show ?thesis by simp
qed

text \<open>
  An instance with scalars of one byte: a quantizer of dimension 1 whose table holds 256
  times the byte 7 is saved and loaded into an instance of another shape.
\<close>

theorem save_load_roundtrip_witness:
  "(INT32_MIN \<le> dim (byte_quantizer\<lparr>centroids := replicate 256 7\<rparr>)
      \<and> dim (byte_quantizer\<lparr>centroids := replicate 256 7\<rparr>) \<le> INT32_MAX)
   \<and> (0 \<le> dim (byte_quantizer\<lparr>centroids := replicate 256 7\<rparr>)
      \<and> dim (byte_quantizer\<lparr>centroids := replicate 256 7\<rparr>) * int ksub \<le> INT32_MAX)
   \<and> load byte_enc byte_dec 1
         \<lparr>buf = save byte_enc (byte_quantizer\<lparr>centroids := replicate 256 7\<rparr>) [], good = True\<rparr>
         (ProductQuantizer_object 3 0 9 () 2 1 512)
       = (Inr ((ProductQuantizer_object 3 0 9 () 2 1 512)\<lparr>dim := 1, nsubq := 1, dsub := 1, lastdsub := 1,
                 centroids := replicate 256 7\<rparr>),
          \<lparr>buf = [], good = True\<rparr>)"
proof -
  let ?q = "byte_quantizer\<lparr>centroids := replicate 256 7\<rparr>"
  have f: "dim ?q = 1" "nsubq ?q = 1" "dsub ?q = 1" "lastdsub ?q = 1"
    "centroids ?q = replicate 256 7"
    by (simp_all add: byte_quantizer_fields)
  have h1: "INT32_MIN \<le> dim ?q \<and> dim ?q \<le> INT32_MAX"
    and h2: "INT32_MIN \<le> nsubq ?q \<and> nsubq ?q \<le> INT32_MAX"
    and h3: "INT32_MIN \<le> dsub ?q \<and> dsub ?q \<le> INT32_MAX"
    and h4: "INT32_MIN \<le> lastdsub ?q \<and> lastdsub ?q \<le> INT32_MAX"
    and h5: "0 \<le> dim ?q \<and> dim ?q * int ksub \<le> INT32_MAX"
    and h6: "length (centroids ?q) = nat (dim ?q * int ksub)"
    unfolding f using int32_small by (simp_all add: ksub_def INT32_MAX_def)
  have h7: "\<forall>r. length (byte_enc r) = 1" by (simp add: byte_enc_length)
  have h8: "\<forall>r \<in> set (centroids ?q). byte_dec (byte_enc r) = r" by (simp add: byte_roundtrip)
  note t = save_load_roundtrip [OF h1 h2 h3 h4 h5 h6 h7 h8,
      of "ProductQuantizer_object 3 0 9 () 2 1 512 :: (uint8, unit) quantizer", THEN conjunct1, unfolded f]
  show ?thesis using h1 h5 t by simp
qed

section \<open>Persistence: what load does with a malformed stream\<close>

lemma load_cases:
  "load enc dec w s q =
     (if wrap32 (dim (fst (load_header s q)) * int ksub) < 0
      then (Inl (length_error, fst (load_header s q)), snd (load_header s q))
      else (Inr ((fst (load_header s q))
                  \<lparr>centroids := fst (load_table enc dec w (snd (load_header s q))
                      (resize (centroids (fst (load_header s q)))
                         (nat (wrap32 (dim (fst (load_header s q)) * int ksub)))))\<rparr>),
            snd (load_table enc dec w (snd (load_header s q))
                      (resize (centroids (fst (load_header s q)))
                         (nat (wrap32 (dim (fst (load_header s q)) * int ksub)))))))"
  unfolding load_def Let_def by (simp add: split_beta)

lemma load_header_dim: "dim (fst (load_header s q)) = fst (read_i32 s (dim q))"
  by (simp add: load_header_parts)

lemma wrap32_small_size:
  assumes "0 \<le> d" and "d < 8388608"
  shows "wrap32 (d * int ksub) = d * 256"
proof -
  have "INT32_MIN \<le> d * 256" "d * 256 \<le> INT32_MAX"
    using assms by (simp_all add: INT32_MIN_def INT32_MAX_def)
  then show ?thesis by (simp add: ksub_def wrap32_id)
qed

lemma wrap32_negative_size:
  assumes "- 8388608 \<le> d" and "d < 0"
  shows "wrap32 (d * int ksub) < 0"
proof -
  have "INT32_MIN \<le> d * 256" "d * 256 \<le> INT32_MAX"
    using assms by (simp_all add: INT32_MIN_def INT32_MAX_def)
  then have "wrap32 (d * int ksub) = d * 256" by (simp add: ksub_def wrap32_id)
  then show ?thesis using assms(2) by simp
qed

text \<open>
  C5, as the code has it. \<open>load\<close> checks neither the stream nor the members it reads.
  The one error it raises is the \<^verbatim>\<open>std::length_error\<close> of the table's \<^verbatim>\<open>resize\<close>, and it
  raises it exactly when \<open>dim * ksub\<close>, for the \<open>dim\<close> it has read and as the \<^verbatim>\<open>int32_t\<close> it
  is computed in, is negative: for every \<open>dim\<close> from \<open>-2^23\<close> to \<open>-1\<close>, and for no \<open>dim\<close> from
  0 to \<open>2^23 - 1\<close>, 0 included. When the size is not negative and the stream holds fewer
  bytes than the four members and the scalars of the table take, \<open>load\<close> returns normally;
  the stream is then in its failed state, which is all the caller can see of the shortage.
\<close>

theorem load_raises_only_length_error:
  fixes q :: "('r::zero, 'g) quantizer"
  shows "((\<exists>e q'. fst (load enc dec w s q) = Inl (e, q'))
           = (wrap32 (fst (read_i32 s (dim q)) * int ksub) < 0))
    \<and> (\<forall>e q'. fst (load enc dec w s q) = Inl (e, q') \<longrightarrow> e = length_error)
    \<and> (- 8388608 \<le> fst (read_i32 s (dim q)) \<and> fst (read_i32 s (dim q)) < 0
        \<longrightarrow> (\<exists>q'. fst (load enc dec w s q) = Inl (length_error, q')))
    \<and> (0 \<le> fst (read_i32 s (dim q)) \<and> fst (read_i32 s (dim q)) < 8388608
         \<and> length (buf s) < 16 + w * nat (fst (read_i32 s (dim q)) * 256)
        \<longrightarrow> (\<exists>q'. fst (load enc dec w s q) = Inr q') \<and> \<not> good (snd (load enc dec w s q)))"
proof -
  let ?d = "fst (read_i32 s (dim q))"
  let ?n = "wrap32 (?d * int ksub)"
  let ?h = "load_header s q"
  let ?cs = "resize (centroids (fst ?h)) (nat ?n)"
  have 1: "(\<exists>e q'. fst (load enc dec w s q) = Inl (e, q')) = (?n < 0)"
    by (simp add: load_cases load_header_dim)
  have 2: "\<forall>e q'. fst (load enc dec w s q) = Inl (e, q') \<longrightarrow> e = length_error"
    by (simp add: load_cases split: if_splits)
  have 3: "\<exists>q'. fst (load enc dec w s q) = Inl (length_error, q')"
    if "- 8388608 \<le> ?d \<and> ?d < 0"
    using wrap32_negative_size [of ?d] that by (simp add: load_cases load_header_dim)
  have 4: "(\<exists>q'. fst (load enc dec w s q) = Inr q') \<and> \<not> good (snd (load enc dec w s q))"
    if h: "0 \<le> ?d \<and> ?d < 8388608 \<and> length (buf s) < 16 + w * nat (?d * 256)"
  proof -
    have n: "?n = ?d * 256" using wrap32_small_size [of ?d] h by simp
    have nn: "\<not> ?n < 0" unfolding n using h by simp
    have r: "\<exists>q'. fst (load enc dec w s q) = Inr q'"
      using nn by (simp add: load_cases load_header_dim)
    have e: "snd (load enc dec w s q) = snd (load_table enc dec w (snd ?h) ?cs)"
      using nn by (simp add: load_cases load_header_dim)
    have "\<not> good (snd (load_table enc dec w (snd ?h) ?cs))"
    proof
      assume g: "good (snd (load_table enc dec w (snd ?h) ?cs))"
      from load_table_good [OF g]
      have a: "length (buf (snd ?h)) = w * nat (?d * 256)
          + length (buf (snd (load_table enc dec w (snd ?h) ?cs)))"
        by (simp add: resize_length n)
      have "good (snd ?h)"
      proof (rule ccontr)
        assume n: "\<not> good (snd ?h)"
        from load_table_failed [OF n, of enc dec w ?cs] g n show False by simp
      qed
      from load_header_good [OF this] a h show False by simp
    qed
    then show ?thesis using r e by simp
  qed
  show ?thesis using 1 2 3 4 by blast
qed

lemma wrap32_one: "wrap32 1 = 1"
  by (simp add: wrap32_def)

lemma wrap32_zero: "wrap32 0 = 0"
  by (simp add: wrap32_def)

lemma read_i32_empty:
  "read_i32 \<lparr>buf = [], good = True\<rparr> old = (wrap32 old, \<lparr>buf = [], good = False\<rparr>)"
  by (simp add: read_i32_def stream_read_def i32_of_bytes_bytes)

lemma load_header_empty:
  "load_header \<lparr>buf = [], good = True\<rparr> byte_quantizer
     = (byte_quantizer, \<lparr>buf = [], good = False\<rparr>)"
proof -
  have f: "read_i32 \<lparr>buf = [], good = False\<rparr> old = (wrap32 old, \<lparr>buf = [], good = False\<rparr>)" for old
    by (rule read_i32_failed) simp
  have "load_header \<lparr>buf = [], good = True\<rparr> byte_quantizer
     = (byte_quantizer\<lparr>dim := 1, nsubq := 1, dsub := 1, lastdsub := 1\<rparr>, \<lparr>buf = [], good = False\<rparr>)"
    unfolding load_header_def Let_def
    by (simp add: read_i32_empty f byte_quantizer_fields wrap32_one)
  moreover have "byte_quantizer\<lparr>dim := 1, nsubq := 1, dsub := 1, lastdsub := 1\<rparr> = byte_quantizer"
    using byte_quantizer_eq by (simp add: byte_quantizer_fields [symmetric])
  ultimately show ?thesis by simp
qed

text \<open>
  An instance: the empty stream, loaded into a quantizer of dimension 1.
\<close>

theorem load_raises_only_length_error_witness:
  "0 \<le> fst (read_i32 \<lparr>buf = [], good = True\<rparr> (dim byte_quantizer))
   \<and> fst (read_i32 \<lparr>buf = [], good = True\<rparr> (dim byte_quantizer)) < 8388608
   \<and> length (buf \<lparr>buf = [], good = True\<rparr>)
        < 16 + 1 * nat (fst (read_i32 \<lparr>buf = [], good = True\<rparr> (dim byte_quantizer)) * 256)
   \<and> (\<exists>q'. fst (load byte_enc byte_dec 1 \<lparr>buf = [], good = True\<rparr> byte_quantizer) = Inr q')
   \<and> \<not> good (snd (load byte_enc byte_dec 1 \<lparr>buf = [], good = True\<rparr> byte_quantizer))"
proof -
  have d: "fst (read_i32 \<lparr>buf = [], good = True\<rparr> (dim byte_quantizer)) = 1"
    by (simp add: read_i32_empty byte_quantizer_fields wrap32_one)
  have h: "0 \<le> fst (read_i32 \<lparr>buf = [], good = True\<rparr> (dim byte_quantizer))
     \<and> fst (read_i32 \<lparr>buf = [], good = True\<rparr> (dim byte_quantizer)) < 8388608
     \<and> length (buf \<lparr>buf = [], good = True\<rparr>)
        < 16 + 1 * nat (fst (read_i32 \<lparr>buf = [], good = True\<rparr> (dim byte_quantizer)) * 256)"
    unfolding d by simp
  from load_raises_only_length_error [of byte_enc byte_dec 1 "\<lparr>buf = [], good = True\<rparr>" byte_quantizer,
      THEN conjunct2, THEN conjunct2, THEN conjunct2, rule_format, OF h] h
  show ?thesis by simp
qed

text \<open>
  C5 as stated fails. Loading the empty stream returns normally and leaves the
  quantizer as it was; loading sixteen zero bytes, which give a dimension of 0, returns
  normally with an empty table.
\<close>

theorem load_short_stream_returns:
  "load byte_enc byte_dec 1 \<lparr>buf = [], good = True\<rparr> byte_quantizer
     = (Inr byte_quantizer, \<lparr>buf = [], good = False\<rparr>)
   \<and> load byte_enc byte_dec 1 \<lparr>buf = replicate 16 0, good = True\<rparr> byte_quantizer
     = (Inr (byte_quantizer\<lparr>dim := 0, nsubq := 0, dsub := 0, lastdsub := 0, centroids := []\<rparr>),
        \<lparr>buf = [], good = True\<rparr>)"
proof -
  have rs: "resize (replicate 256 (0 :: uint8)) 256 = replicate 256 0"
    by (simp add: resize_def)
  have tb: "load_table byte_enc byte_dec (Suc 0) \<lparr>buf = [], good = False\<rparr> (replicate 256 0)
      = (replicate 256 0, \<lparr>buf = [], good = False\<rparr>)"
    using load_table_failed [of "\<lparr>buf = [], good = False\<rparr>" byte_enc byte_dec "Suc 0" "replicate 256 0"]
    by (simp add: byte_roundtrip)
  have "load byte_enc byte_dec 1 \<lparr>buf = [], good = True\<rparr> byte_quantizer
     = (Inr (byte_quantizer\<lparr>centroids := replicate 256 0\<rparr>), \<lparr>buf = [], good = False\<rparr>)"
    unfolding load_def load_header_empty
    by (simp add: byte_quantizer_fields ksub_def rs tb Let_def wrap32_def)
  moreover have "byte_quantizer\<lparr>centroids := replicate 256 0\<rparr> = byte_quantizer"
    using byte_quantizer_fields(5) by (metis quantizer.surjective quantizer.update_convs(5))
  ultimately have a: "load byte_enc byte_dec 1 \<lparr>buf = [], good = True\<rparr> byte_quantizer
     = (Inr byte_quantizer, \<lparr>buf = [], good = False\<rparr>)" by simp
  have z: "i32_bytes 0 = [0, 0, 0, 0]" by (simp add: i32_bytes_def)
  have b16: "replicate 16 (0 :: uint8) = i32_bytes 0 @ i32_bytes 0 @ i32_bytes 0 @ i32_bytes 0 @ []"
    unfolding z by (simp add: numeral_eq_Suc)
  have hd: "load_header \<lparr>buf = replicate 16 0, good = True\<rparr> byte_quantizer
      = (byte_quantizer\<lparr>dim := 0, nsubq := 0, dsub := 0, lastdsub := 0\<rparr>, \<lparr>buf = [], good = True\<rparr>)"
  proof -
    have g: "good \<lparr>buf = replicate 16 0, good = True\<rparr>" by simp
    have b: "buf \<lparr>buf = replicate 16 0, good = True\<rparr>
        = i32_bytes 0 @ i32_bytes 0 @ i32_bytes 0 @ i32_bytes 0 @ []"
      using b16 by simp
    from load_header_ok [OF g b, of byte_quantizer] show ?thesis by (simp add: wrap32_zero)
  qed
  have b: "load byte_enc byte_dec 1 \<lparr>buf = replicate 16 0, good = True\<rparr> byte_quantizer
     = (Inr (byte_quantizer\<lparr>dim := 0, nsubq := 0, dsub := 0, lastdsub := 0, centroids := []\<rparr>),
        \<lparr>buf = [], good = True\<rparr>)"
    unfolding load_def hd by (simp add: resize_def load_table_def Let_def wrap32_zero)
  show ?thesis using a b by simp
qed

end
